theory Spec2Isabelle
  imports Main "HOL-Library.Char_ord" "HOL-Library.List_Lexorder" "HOL-Library.Multiset"
begin

section \<open>Go strings as byte lists\<close>

text \<open>
  A Go string is a sequence of bytes; \<open>len\<close> counts bytes and the functions of package
  \<open>unicode/utf8\<close> decode those bytes as UTF-8.  A \<^typ>\<open>string\<close> of HOL is a list of
  8-bit characters, so the model keeps the bytes and decodes them where Go does.
\<close>

type_synonym rune = nat

definition byte :: "char \<Rightarrow> nat" where
  "byte c = of_char c"

definition RuneError :: rune where
  "RuneError = 0xFFFD"

definition RuneSelf :: nat where
  "RuneSelf = 0x80"

text \<open>A continuation byte of UTF-8 lies in \<open>0x80..0xBF\<close> (\<open>locb\<close>, \<open>hicb\<close>).\<close>

definition cont :: "char \<Rightarrow> bool" where
  "cont c \<longleftrightarrow> 0x80 \<le> byte c \<and> byte c \<le> 0xBF"

text \<open>The accepted range of the second byte, by first byte (\<open>acceptRanges\<close>).\<close>

definition accept_lo :: "nat \<Rightarrow> nat" where
  "accept_lo b0 = (if b0 = 0xE0 then 0xA0 else if b0 = 0xF0 then 0x90 else 0x80)"

definition accept_hi :: "nat \<Rightarrow> nat" where
  "accept_hi b0 = (if b0 = 0xED then 0x9F else if b0 = 0xF4 then 0x8F else 0xBF)"

definition accepted :: "nat \<Rightarrow> char \<Rightarrow> bool" where
  "accepted b0 c \<longleftrightarrow> accept_lo b0 \<le> byte c \<and> byte c \<le> accept_hi b0"

text \<open>
  \<open>utf8.DecodeRuneInString\<close>: the first rune of the string and its width in bytes.
  An empty string gives \<open>(RuneError, 0)\<close>, an invalid or short encoding
  \<open>(RuneError, 1)\<close>.
\<close>

fun DecodeRuneInString :: "string \<Rightarrow> rune \<times> nat" where
  "DecodeRuneInString [] = (RuneError, 0)"
| "DecodeRuneInString (c0 # cs) =
     (let b0 = byte c0 in
      if b0 < RuneSelf then (b0, 1)
      else if b0 < 0xC2 \<or> 0xF4 < b0 then (RuneError, 1)
      else if b0 < 0xE0 then
        (case cs of
           c1 # _ \<Rightarrow>
             if accepted b0 c1 then ((b0 mod 32) * 64 + byte c1 mod 64, 2)
             else (RuneError, 1)
         | _ \<Rightarrow> (RuneError, 1))
      else if b0 < 0xF0 then
        (case cs of
           c1 # c2 # _ \<Rightarrow>
             if accepted b0 c1 \<and> cont c2
             then ((b0 mod 16) * 4096 + (byte c1 mod 64) * 64 + byte c2 mod 64, 3)
             else (RuneError, 1)
         | _ \<Rightarrow> (RuneError, 1))
      else
        (case cs of
           c1 # c2 # c3 # _ \<Rightarrow>
             if accepted b0 c1 \<and> cont c2 \<and> cont c3
             then ((b0 mod 8) * 262144 + (byte c1 mod 64) * 4096
                   + (byte c2 mod 64) * 64 + byte c3 mod 64, 4)
             else (RuneError, 1)
         | _ \<Rightarrow> (RuneError, 1)))"

text \<open>
  \<open>utf8.RuneCountInString\<close>: the number of runes; erroneous and short encodings
  count as single runes of width one byte.  The width of a rune of a non-empty string is at
  least one, so the loop drops \<open>width - 1\<close> bytes after the first.
\<close>

fun RuneCountInString :: "string \<Rightarrow> nat" where
  "RuneCountInString [] = 0"
| "RuneCountInString (c # cs) =
     Suc (RuneCountInString (drop (snd (DecodeRuneInString (c # cs)) - 1) cs))"

text \<open>\<open>utf8.RuneStart\<close>: the byte is not a continuation byte.\<close>

definition RuneStart :: "char \<Rightarrow> bool" where
  "RuneStart c \<longleftrightarrow> \<not> cont c"

text \<open>
  The backwards scan of \<open>utf8.DecodeLastRuneInString\<close>:
  \<^verbatim>\<open>for start--; start >= lim; start-- { if RuneStart(s[start]) { break } }\<close>
\<close>

function scan_back :: "string \<Rightarrow> int \<Rightarrow> int \<Rightarrow> int" where
  "scan_back s start lim =
     (if start \<ge> lim
      then (if RuneStart (s ! nat start) then start else scan_back s (start - 1) lim)
      else start)"
  by pat_completeness auto
termination
  by (relation "measure (\<lambda>(s, start, lim). nat (start - lim + 1))") auto

definition DecodeLastRuneInString :: "string \<Rightarrow> rune \<times> nat" where
  "DecodeLastRuneInString s =
     (if s = [] then (RuneError, 0)
      else if byte (last s) < RuneSelf then (byte (last s), 1)
      else
        (let end = int (length s);
             lim = max 0 (end - 4);
             start0 = scan_back s (end - 2) lim;
             start = (if start0 < 0 then 0 else start0);
             (r, width) = DecodeRuneInString (drop (nat start) s)
         in if start + int width \<noteq> end then (RuneError, 1) else (r, width)))"

text \<open>\<open>unicode.IsSpace\<close>: the Latin-1 white space, then the \<open>White_Space\<close> table.\<close>

definition IsSpace :: "rune \<Rightarrow> bool" where
  "IsSpace r \<longleftrightarrow>
     (if r \<le> 0xFF
      then r \<in> {0x09, 0x0A, 0x0B, 0x0C, 0x0D, 0x20, 0x85, 0xA0}
      else r = 0x1680 \<or> (0x2000 \<le> r \<and> r \<le> 0x200A) \<or> r = 0x2028 \<or> r = 0x2029
           \<or> r = 0x202F \<or> r = 0x205F \<or> r = 0x3000)"

text \<open>
  \<open>strings.TrimLeftFunc(s, unicode.IsSpace)\<close> and
  \<open>strings.TrimRightFunc(s, unicode.IsSpace)\<close>: runes are decoded from the front,
  respectively from the back, and removed while they are white space.
\<close>

fun TrimLeftSpace :: "string \<Rightarrow> string" where
  "TrimLeftSpace [] = []"
| "TrimLeftSpace (c # cs) =
     (if IsSpace (fst (DecodeRuneInString (c # cs)))
      then TrimLeftSpace (drop (snd (DecodeRuneInString (c # cs)) - 1) cs)
      else c # cs)"

function TrimRightSpace :: "string \<Rightarrow> string" where
  "TrimRightSpace s =
     (if s = [] then []
      else if IsSpace (fst (DecodeLastRuneInString s))
      then TrimRightSpace (take (length s - snd (DecodeLastRuneInString s)) (butlast s))
      else s)"
  by pat_completeness auto
termination
  by (relation "measure length") (auto simp: min_less_iff_disj)

text \<open>\<open>strings.TrimSpace\<close>: leading white space is removed first, then trailing.\<close>

definition TrimSpace :: "string \<Rightarrow> string" where
  "TrimSpace s = TrimRightSpace (TrimLeftSpace s)"

text \<open>
  \<open>strings.TrimLeft\<close>, \<open>strings.TrimRight\<close> and \<open>strings.Trim\<close> with a cutset.
  Every cutset of this program is ASCII, for which Go compares byte by byte.
\<close>

definition TrimLeft :: "string \<Rightarrow> string \<Rightarrow> string" where
  "TrimLeft s cutset = dropWhile (\<lambda>c. c \<in> set cutset) s"

definition TrimRight :: "string \<Rightarrow> string \<Rightarrow> string" where
  "TrimRight s cutset = rev (dropWhile (\<lambda>c. c \<in> set cutset) (rev s))"

definition Trim :: "string \<Rightarrow> string \<Rightarrow> string" where
  "Trim s cutset = TrimRight (TrimLeft s cutset) cutset"

text \<open>
  \<open>strings.ReplaceAll(s, old, new)\<close> for a one-byte \<open>old\<close>: every occurrence of the
  byte becomes \<open>new\<close>.
\<close>

definition ReplaceAll :: "string \<Rightarrow> char \<Rightarrow> string \<Rightarrow> string" where
  "ReplaceAll s old new = concat (map (\<lambda>c. if c = old then new else [c]) s)"


text \<open>
  \<open>strings.Split(s, sep)\<close> for a one-byte separator: the pieces between the separators,
  empty pieces included; the empty string gives one empty piece.
\<close>

fun Split :: "string \<Rightarrow> char \<Rightarrow> string list" where
  "Split [] sep = [[]]"
| "Split (c # cs) sep =
     (if c = sep then [] # Split cs sep
      else (case Split cs sep of
              f # fs \<Rightarrow> (c # f) # fs
            | [] \<Rightarrow> [[c]]))"

text \<open>
  \<open>strings.FieldsFunc(s, func(r rune) bool { return r == sep })\<close> for an ASCII
  \<open>sep\<close>: the string is cut at each run of separators and no empty field is returned.
  An ASCII byte is never part of a longer UTF-8 sequence, so cutting at the byte is cutting
  at the rune.
\<close>

definition FieldsFunc :: "string \<Rightarrow> char \<Rightarrow> string list" where
  "FieldsFunc s sep = filter (\<lambda>f. f \<noteq> []) (Split s sep)"

text \<open>\<open>strings.Join\<close>, \<open>strings.Repeat\<close>, \<open>strings.HasPrefix\<close>, \<open>strings.HasSuffix\<close>.\<close>

fun Join :: "string list \<Rightarrow> string \<Rightarrow> string" where
  "Join [] sep = []"
| "Join [e] sep = e"
| "Join (e # es) sep = e @ sep @ Join es sep"

text \<open>
  \<open>strings.Repeat\<close> panics on a negative count; every call of this program passes
  \<open>max(0, _)\<close>, \<open>max(1, _)\<close>, the constant 1 or \<open>level+2\<close>.
\<close>

definition Repeat :: "string \<Rightarrow> int \<Rightarrow> string" where
  "Repeat s n = concat (replicate (nat n) s)"

definition HasPrefix :: "string \<Rightarrow> string \<Rightarrow> bool" where
  "HasPrefix s pre \<longleftrightarrow> length pre \<le> length s \<and> take (length pre) s = pre"

definition HasSuffix :: "string \<Rightarrow> string \<Rightarrow> bool" where
  "HasSuffix s suf \<longleftrightarrow> length suf \<le> length s \<and> drop (length s - length suf) s = suf"

text \<open>
  \<open>strings.Index(s, substr)\<close> (\<open>None\<close> for -1) and
  \<open>strings.Replace(s, old, new, 1)\<close>: the first occurrence of \<open>old\<close> is replaced.
\<close>

fun Index :: "string \<Rightarrow> string \<Rightarrow> nat option" where
  "Index [] substr = (if substr = [] then Some 0 else None)"
| "Index (c # cs) substr =
     (if HasPrefix (c # cs) substr then Some 0 else map_option Suc (Index cs substr))"

definition Replace1 :: "string \<Rightarrow> string \<Rightarrow> string \<Rightarrow> string" where
  "Replace1 s old new =
     (case Index s old of
        None \<Rightarrow> s
      | Some i \<Rightarrow> take i s @ new @ drop (i + length old) s)"

text \<open>Go's integer division truncates toward zero.\<close>

definition quo :: "int \<Rightarrow> int \<Rightarrow> int" where
  "quo a b = sgn a * sgn b * (\<bar>a\<bar> div \<bar>b\<bar>)"

section \<open>TextPreparer\<close>

text \<open>
  \<^verbatim>\<open>
  func (tabularTemplate) PrepareMultilineString(s string) string {
      return strings.TrimRight(
          strings.TrimSpace(strings.ReplaceAll(s, "\n", " ")), ".\r\n\t")
  }
  \<close>
\<close>

definition PrepareMultilineString :: "string \<Rightarrow> string" where
  "PrepareMultilineString s =
     TrimRight (TrimSpace (ReplaceAll s CHR ''\<newline>'' '' ''))
       [CHR ''.'', CHR 0x0D, CHR ''\<newline>'', CHR 0x09]"

section \<open>FlagFormatter\<close>

text \<open>
  The flag object model is consumed through its methods.  A \<open>Flag\<close> value is modelled by
  what the methods return: \<open>DocGeneration\<close> says whether the type assertion
  \<open>f.(DocGenerationFlag)\<close> succeeds, and \<open>BoolValue\<close> is \<open>Some v\<close> exactly when the
  flag is a \<open>*BoolFlag\<close> whose \<open>Value\<close> is \<open>v\<close>.
\<close>

record Flag =
  DocGeneration :: bool
  Names :: "string list"
  TakesValue :: bool
  GetUsage :: string
  GetValue :: string
  GetEnvVars :: "string list"
  BoolValue :: "bool option"

text \<open>
  \<^verbatim>\<open>
  func flagDetails(flag DocGenerationFlag) string {
      description := flag.GetUsage()
      value := flag.GetValue()
      if value != "" {
          description += " (default: " + value + ")"
      }
      return ": " + description
  }
  \<close>
\<close>

definition flagDetails :: "Flag \<Rightarrow> string" where
  "flagDetails flag =
     (let description = GetUsage flag;
          val = GetValue flag;
          description = (if val \<noteq> [] then description @ '' (default: '' @ val @ '')''
                         else description)
      in '': '' @ description)"

text \<open>
  The loop over \<open>flag.Names()\<close> of \<open>prepareFlags\<close>, with \<open>modifiedArg\<close> as accumulator:
  \<^verbatim>\<open>
  for _, s := range flag.Names() {
      trimmed := strings.TrimSpace(s)
      if len(modifiedArg) > len(opener) {
          modifiedArg += sep
      }
      if len(trimmed) > 1 {
          modifiedArg += fmt.Sprintf("--%s", trimmed)
      } else {
          modifiedArg += fmt.Sprintf("-%s", trimmed)
      }
  }
  \<close>
\<close>

fun names_loop :: "string \<Rightarrow> string \<Rightarrow> string \<Rightarrow> string list \<Rightarrow> string" where
  "names_loop sep opener modifiedArg [] = modifiedArg"
| "names_loop sep opener modifiedArg (s # names) =
     (let trimmed = TrimSpace s;
          modifiedArg = (if length modifiedArg > length opener then modifiedArg @ sep
                         else modifiedArg);
          modifiedArg = (if length trimmed > 1 then modifiedArg @ ''--'' @ trimmed
                         else modifiedArg @ ''-'' @ trimmed)
      in names_loop sep opener modifiedArg names)"

text \<open>The body of the loop over the flags of \<open>prepareFlags\<close>, for one documented flag.\<close>

definition flag_arg :: "string \<Rightarrow> string \<Rightarrow> string \<Rightarrow> string \<Rightarrow> bool \<Rightarrow> Flag \<Rightarrow> string" where
  "flag_arg sep opener closer val addDetails flag =
     (let modifiedArg = names_loop sep opener opener (Names flag);
          modifiedArg = modifiedArg @ closer;
          modifiedArg = (if TakesValue flag then modifiedArg @ ''='' @ val else modifiedArg);
          modifiedArg = (if addDetails then modifiedArg @ flagDetails flag else modifiedArg)
      in modifiedArg @ ''\<newline>'')"

text \<open>
  \<open>prepareFlags\<close>: flags without documentation metadata are skipped, and
  \<open>sort.Strings\<close> puts the result in increasing byte-wise lexicographic order.
\<close>

definition prepareFlags ::
  "Flag list \<Rightarrow> string \<Rightarrow> string \<Rightarrow> string \<Rightarrow> string \<Rightarrow> bool \<Rightarrow> string list" where
  "prepareFlags flags sep opener closer val addDetails =
     sort (map (flag_arg sep opener closer val addDetails) (filter DocGeneration flags))"

definition prepareArgsWithValues :: "Flag list \<Rightarrow> string list" where
  "prepareArgsWithValues flags = prepareFlags flags '', '' ''**'' ''**'' [CHR 0x22, CHR 0x22] True"

definition prepareArgsSynopsis :: "Flag list \<Rightarrow> string list" where
  "prepareArgsSynopsis flags = prepareFlags flags ''|'' ''['' '']'' ''[value]'' False"

record cliTabularFlagTemplate =
  ft_Name :: string
  ft_Aliases :: "string list"
  ft_Usage :: string
  ft_TakesValue :: bool
  ft_Default :: string
  ft_EnvVars :: "string list"

text \<open>
  The loop over \<open>flag.Names()\<close> of \<open>PrepareFlags\<close>, with the index \<open>i\<close> and the
  template \<open>f\<close> as state:
  \<^verbatim>\<open>
  for i, name := range flag.Names() {
      name = strings.TrimSpace(name)
      if i == 0 {
          f.Name = "--" + name
          continue
      }
      if len(name) > 1 {
          name = "--" + name
      } else {
          name = "-" + name
      }
      f.Aliases = append(f.Aliases, name)
  }
  \<close>
\<close>

fun tabular_names_loop ::
  "nat \<Rightarrow> cliTabularFlagTemplate \<Rightarrow> string list \<Rightarrow> cliTabularFlagTemplate" where
  "tabular_names_loop i f [] = f"
| "tabular_names_loop i f (name # names) =
     (let name = TrimSpace name in
      if i = 0 then tabular_names_loop (Suc i) (f\<lparr>ft_Name := ''--'' @ name\<rparr>) names
      else
        (let name = (if length name > 1 then ''--'' @ name else ''-'' @ name)
         in tabular_names_loop (Suc i) (f\<lparr>ft_Aliases := ft_Aliases f @ [name]\<rparr>) names))"

definition FormatBool :: "bool \<Rightarrow> string" where
  "FormatBool b = (if b then ''true'' else ''false'')"

definition PrepareFlag :: "Flag \<Rightarrow> cliTabularFlagTemplate" where
  "PrepareFlag flag =
     (let f = \<lparr>ft_Name = [], ft_Aliases = [],
                ft_Usage = PrepareMultilineString (GetUsage flag),
                ft_TakesValue = TakesValue flag,
                ft_Default = GetValue flag,
                ft_EnvVars = GetEnvVars flag\<rparr>;
          f = (case BoolValue flag of
                 Some v \<Rightarrow> f\<lparr>ft_Default := FormatBool v\<rparr>
               | None \<Rightarrow> f)
      in tabular_names_loop 0 f (Names flag))"

definition PrepareFlags :: "Flag list \<Rightarrow> cliTabularFlagTemplate list" where
  "PrepareFlags flags = map PrepareFlag (filter DocGeneration flags)"

section \<open>TreeFlattener\<close>

text \<open>
  A command with the fields and methods this file reads.  \<open>VisibleFlags\<close> holds what the
  method \<open>VisibleFlags()\<close> returns; \<open>Commands\<close> are the subcommands.
\<close>

datatype Command = Command
  (Name: string)
  (Aliases: "string list")
  (Usage: string)
  (UsageText: string)
  (ArgsUsage: string)
  (Description: string)
  (Category: string)
  (VisibleFlags: "Flag list")
  (Hidden: bool)
  (Commands: "Command list")

text \<open>
  Modelled from the spec: the method \<open>Command.Names\<close> is not part of this file; the
  heading carries "the joined alias/name list", the name followed by the aliases.
\<close>

definition Names_of :: "Command \<Rightarrow> string list" where
  "Names_of command = Name command # Aliases command"

text \<open>
  \<^verbatim>\<open>
  func prepareUsageText(command *Command) string {
      if command.UsageText == "" { return "" }
      preparedUsageText := strings.Trim(command.UsageText, "\n")
      var usageText string
      if strings.Contains(preparedUsageText, "\n") {
          for _, ln := range strings.Split(preparedUsageText, "\n") {
              usageText += fmt.Sprintf("    %s\n", ln)
          }
      } else {
          usageText = fmt.Sprintf(">%s\n", preparedUsageText)
      }
      return usageText
  }
  \<close>
\<close>

definition prepareUsageText :: "Command \<Rightarrow> string" where
  "prepareUsageText command =
     (if UsageText command = [] then []
      else
        (let preparedUsageText = Trim (UsageText command) ''\<newline>'' in
         if CHR ''\<newline>'' \<in> set preparedUsageText
         then concat (map (\<lambda>ln. ''    '' @ ln @ ''\<newline>'')
                        (Split preparedUsageText CHR ''\<newline>''))
         else ''>'' @ preparedUsageText @ ''\<newline>''))"

text \<open>
  \<^verbatim>\<open>
  func prepareUsage(command *Command, usageText string) string {
      if command.Usage == "" { return "" }
      usage := command.Usage + "\n"
      if usageText != "" { usage += "\n" }
      return usage
  }
  \<close>
\<close>

definition prepareUsage :: "Command \<Rightarrow> string \<Rightarrow> string" where
  "prepareUsage command usageText =
     (if Usage command = [] then []
      else
        (let usage = Usage command @ ''\<newline>'' in
         if usageText \<noteq> [] then usage @ ''\<newline>'' else usage))"

text \<open>
  The text block that \<open>prepareCommands\<close> builds for one command that is not hidden.
  The \<open>level\<close> is an \<open>int\<close> that starts at 0 and grows by one for each generation.
\<close>

definition prepared :: "Command \<Rightarrow> nat \<Rightarrow> string" where
  "prepared command level =
     (let usageText = prepareUsageText command;
          usage = prepareUsage command usageText;
          prepared = Repeat ''#'' (int level + 2) @ '' '' @ Join (Names_of command) '', ''
                     @ ''\<newline>\<newline>'' @ usage @ usageText;
          flags = prepareArgsWithValues (VisibleFlags command)
      in if length flags > 0 then prepared @ ''\<newline>'' @ Join flags ''\<newline>''
         else prepared)"

text \<open>
  \<^verbatim>\<open>
  func prepareCommands(commands []*Command, level int) []string {
      var coms []string
      for _, command := range commands {
          if command.Hidden { continue }
          ...
          coms = append(coms, prepared)
          if len(command.Commands) > 0 {
              coms = append(coms, prepareCommands(command.Commands, level+1)...)
          }
      }
      return coms
  }
  \<close>
\<close>

function (sequential) prepareCommands :: "Command list \<Rightarrow> nat \<Rightarrow> string list" where
  "prepareCommands [] level = []"
| "prepareCommands (command # commands) level =
     (if Hidden command then prepareCommands commands level
      else
        prepared command level
        # (if length (Commands command) > 0
           then prepareCommands (Commands command) (level + 1) else [])
        @ prepareCommands commands level)"
  by pat_completeness auto
termination
proof (relation "measure (\<lambda>(commands, level). size_list size commands)")
  fix command :: Command and commands :: "Command list" and level :: nat
  show "((Commands command, level + 1), (command # commands, level))
          \<in> measure (\<lambda>(commands, level). size_list size commands)"
    by (cases command) simp
qed auto

datatype cliTabularCommandTemplate = cliTabularCommandTemplate
  (ct_AppPath: string)
  (ct_Name: string)
  (ct_Aliases: "string list")
  (ct_Usage: string)
  (ct_UsageText: "string list")
  (ct_ArgsUsage: string)
  (ct_Description: string)
  (ct_Category: string)
  (ct_Flags: "cliTabularFlagTemplate list")
  (ct_SubCommands: "cliTabularCommandTemplate list")
  (ct_Level: nat)

text \<open>
  \<open>tabularTemplate.PrepareCommands\<close>: one template per command of the list, in order,
  the subcommands prepared with the joined name as \<open>parentCommandName\<close>.
\<close>

function (sequential) PrepareCommands ::
  "Command list \<Rightarrow> string \<Rightarrow> string \<Rightarrow> nat \<Rightarrow> cliTabularCommandTemplate list" where
  "PrepareCommands [] appPath parentCommandName level = []"
| "PrepareCommands (cmd # commands) appPath parentCommandName level =
     cliTabularCommandTemplate
       appPath
       (TrimSpace (Join [parentCommandName, Name cmd] '' ''))
       (Aliases cmd)
       (PrepareMultilineString (Usage cmd))
       (FieldsFunc (UsageText cmd) CHR ''\<newline>'')
       (PrepareMultilineString (ArgsUsage cmd))
       (PrepareMultilineString (Description cmd))
       (Category cmd)
       (PrepareFlags (VisibleFlags cmd))
       (PrepareCommands (Commands cmd) appPath
          (Join [parentCommandName, Name cmd] '' '') (level + 1))
       level
     # PrepareCommands commands appPath parentCommandName level"
  by pat_completeness auto
termination
proof (relation "measure (\<lambda>(commands, appPath, parent, level). size_list size commands)")
  fix cmd :: Command and commands :: "Command list"
    and appPath parentCommandName :: string and level :: nat
  show "((Commands cmd, appPath, Join [parentCommandName, Name cmd] '' '', level + 1),
         (cmd # commands, appPath, parentCommandName, level))
          \<in> measure (\<lambda>(commands, appPath, parent, level). size_list size commands)"
    by (cases cmd) simp
qed auto

section \<open>Regular expressions\<close>

text \<open>
  The two expressions of \<open>Prettify\<close> use bytes, the class \<open>[^\n]\<close>, the line anchors
  of the flag \<open>(?m)\<close>, sequence, and the greedy operators \<open>?\<close>, \<open>*\<close> and \<open>+\<close>.
  Package \<open>regexp\<close> returns, at the leftmost position where the expression matches, the
  match that a backtracking search finds first.  \<open>ends r (pv, s)\<close> lists, in the order of
  that search, the texts that can remain after a match of \<open>r\<close> at the front of \<open>s\<close>, each
  with the byte before it; \<open>pv\<close> is the byte before \<open>s\<close> (\<open>None\<close> at the start of the
  text).  Every byte these expressions name is ASCII, so matching bytes is matching runes.
\<close>

datatype regex =
    Byte char
  | NotByte char
  | Bol
  | Eol
  | Seq regex regex
  | Opt regex
  | Star regex

definition Plus :: "regex \<Rightarrow> regex" where
  "Plus r = Seq r (Star r)"

function (sequential) ends ::
  "regex \<Rightarrow> char option \<times> string \<Rightarrow> (char option \<times> string) list" where
  "ends (Byte c) (pv, s) =
     (case s of x # xs \<Rightarrow> if x = c then [(Some x, xs)] else [] | [] \<Rightarrow> [])"
| "ends (NotByte c) (pv, s) =
     (case s of x # xs \<Rightarrow> if x \<noteq> c then [(Some x, xs)] else [] | [] \<Rightarrow> [])"
| "ends Bol (pv, s) =
     (if pv = None \<or> pv = Some CHR ''\<newline>'' then [(pv, s)] else [])"
| "ends Eol (pv, s) =
     (case s of [] \<Rightarrow> [(pv, s)] | x # xs \<Rightarrow> if x = CHR ''\<newline>'' then [(pv, s)] else [])"
| "ends (Seq r1 r2) st = concat (map (\<lambda>st'. ends r2 st') (ends r1 st))"
| "ends (Opt r) st = ends r st @ [st]"
| "ends (Star r) st =
     concat (map (\<lambda>st'. if length (snd st') < length (snd st) then ends (Star r) st' else [])
               (ends r st))
     @ [st]"
  by pat_completeness auto
termination
  by (relation "measures [\<lambda>(r, st). size r, \<lambda>(r, st). length (snd st)]") auto

text \<open>
  \<open>FindAllString(s, -1)\<close>: the successive matches, each search starting where the match
  before it ended.  After an empty match the search moves on by one byte (neither expression
  of \<open>Prettify\<close> matches the empty string).
\<close>

function find_all :: "regex \<Rightarrow> char option \<Rightarrow> string \<Rightarrow> string list" where
  "find_all re pv s =
     (case ends re (pv, s) of
        (pv', rest) # _ \<Rightarrow>
          (let n = length s - length rest in
           if 0 < n then take n s # find_all re pv' (drop n s)
           else (case s of [] \<Rightarrow> [[]] | c # cs \<Rightarrow> [] # find_all re (Some c) cs))
      | [] \<Rightarrow> (case s of [] \<Rightarrow> [] | c # cs \<Rightarrow> find_all re (Some c) cs))"
  by pat_completeness auto
termination
  by (relation "measure (\<lambda>(re, pv, s). length s)") auto

definition FindAllString :: "regex \<Rightarrow> string \<Rightarrow> string list" where
  "FindAllString re s = find_all re None s"

text \<open>\<open>ReplaceAllString(s, repl)\<close> for a replacement without \<open>$\<close>.\<close>

function replace_all :: "regex \<Rightarrow> string \<Rightarrow> char option \<Rightarrow> string \<Rightarrow> string" where
  "replace_all re repl pv s =
     (case ends re (pv, s) of
        (pv', rest) # _ \<Rightarrow>
          (let n = length s - length rest in
           if 0 < n then repl @ replace_all re repl pv' (drop n s)
           else (case s of [] \<Rightarrow> repl | c # cs \<Rightarrow> repl @ c # replace_all re repl (Some c) cs))
      | [] \<Rightarrow> (case s of [] \<Rightarrow> [] | c # cs \<Rightarrow> c # replace_all re repl (Some c) cs))"
  by pat_completeness auto
termination
  by (relation "measure (\<lambda>(re, repl, pv, s). length s)") auto

definition ReplaceAllString :: "regex \<Rightarrow> string \<Rightarrow> string \<Rightarrow> string" where
  "ReplaceAllString re s repl = replace_all re repl None s"

section \<open>TableReflowEngine\<close>

text \<open>
  The expression that finds the tables,
  \<^verbatim>\<open>(?m)^(\|[^\n]+\|\r?\n)((?:\|:?-+:?)+\|)(\n(?:\|[^\n]+\|\r?\n?)*)?$\<close>
\<close>

definition table_header :: regex where
  "table_header =
     Seq (Byte CHR ''|'') (Seq (Plus (NotByte CHR ''\<newline>''))
       (Seq (Byte CHR ''|'') (Seq (Opt (Byte CHR 0x0D)) (Byte CHR ''\<newline>''))))"

definition table_separator :: regex where
  "table_separator =
     Seq (Plus (Seq (Byte CHR ''|'') (Seq (Opt (Byte CHR '':''))
                  (Seq (Plus (Byte CHR ''-'')) (Opt (Byte CHR '':''))))))
         (Byte CHR ''|'')"

definition table_body :: regex where
  "table_body =
     Seq (Byte CHR ''\<newline>'')
       (Star (Seq (Byte CHR ''|'') (Seq (Plus (NotByte CHR ''\<newline>''))
          (Seq (Byte CHR ''|'') (Seq (Opt (Byte CHR 0x0D)) (Opt (Byte CHR ''\<newline>'')))))))"

definition table_regexp :: regex where
  "table_regexp =
     Seq Bol (Seq table_header (Seq table_separator (Seq (Opt table_body) Eol)))"

text \<open>The expression \<^verbatim>\<open>\n{2,}\<close> that finds the runs of newlines.\<close>

definition newlines_regexp :: regex where
  "newlines_regexp =
     Seq (Byte CHR ''\<newline>'') (Seq (Byte CHR ''\<newline>'') (Star (Byte CHR ''\<newline>'')))"

text \<open>An index out of range is a run-time panic of Go.\<close>

datatype panic = IndexOutOfRange

text \<open>
  One line of a table becomes a row of the matrix:
  \<^verbatim>\<open>
  items := strings.FieldsFunc(strings.Trim(line, "| "), func(r rune) bool { return r == '|' })
  for i := range items { items[i] = strings.TrimSpace(items[i]) }
  \<close>
\<close>

definition parse_line :: "string \<Rightarrow> string list" where
  "parse_line line = map TrimSpace (FieldsFunc (Trim line ''| '') CHR ''|'')"

text \<open>
  The loops that compute \<open>lengths\<close>; \<open>lengths[i]\<close> panics when the row has more cells
  than \<open>matrix[0]\<close>.  The cells of the separator row (\<open>n == 1\<close>) are skipped before
  \<open>lengths\<close> is read.
  \<^verbatim>\<open>
  var lengths = make([]int, len(matrix[0]))
  for n, row := range matrix {
      for i, cell := range row {
          if n == 1 { continue }
          if l := utf8.RuneCountInString(cell); l > lengths[i] { lengths[i] = l }
      }
  }
  \<close>
\<close>

fun lengths_row :: "int list \<Rightarrow> nat \<Rightarrow> string list \<Rightarrow> panic + int list" where
  "lengths_row lengths i [] = Inr lengths"
| "lengths_row lengths i (cell # row) =
     (let l = int (RuneCountInString cell) in
      if i < length lengths
      then lengths_row (if l > lengths ! i then lengths[i := l] else lengths) (Suc i) row
      else Inl IndexOutOfRange)"

fun lengths_rows :: "int list \<Rightarrow> nat \<Rightarrow> string list list \<Rightarrow> panic + int list" where
  "lengths_rows lengths n [] = Inr lengths"
| "lengths_rows lengths n (row # matrix) =
     (if n = 1 then lengths_rows lengths (Suc n) matrix
      else
        (case lengths_row lengths 0 row of
           Inl e \<Rightarrow> Inl e
         | Inr lengths' \<Rightarrow> lengths_rows lengths' (Suc n) matrix))"

text \<open>
  The padding of a cell that is not in the separator row:
  \<^verbatim>\<open>
  padLeft, padRight = 1, max(1, lengths[j]-cellWidth+1) // align to the left
  if centered[j] { // is centered
      padLeft = max(1, (lengths[j]-cellWidth)/2)
      padRight = max(1, lengths[j]-cellWidth-(padLeft-1))
  }
  \<close>
\<close>

definition pads :: "bool \<Rightarrow> int \<Rightarrow> int \<Rightarrow> int \<times> int" where
  "pads is_centered len cellWidth =
     (if is_centered
      then
        (let padLeft = max 1 (quo (len - cellWidth) 2);
             padRight = max 1 (len - cellWidth - (padLeft - 1))
         in (padLeft, padRight))
      else (1, max 1 (len - cellWidth + 1)))"

text \<open>
  The new text of the cell \<open>j\<close> of the row \<open>i\<close>.  In the separator row \<open>centered[j]\<close>
  is in range and \<open>lengths[j]\<close> may not be; in the other rows \<open>lengths[j]\<close> is read
  first, then \<open>centered[j]\<close>.
  \<^verbatim>\<open>
  if i == 1 { // is separator
      if centered[j] {
          row[j] = ":" + strings.Repeat("-", max(0, lengths[j])) + ":"
      } else {
          row[j] = strings.Repeat("-", max(0, lengths[j]+2))
      }
      continue
  }
  ...
  b.WriteString(strings.Repeat(" ", padLeft))
  if padLeft+cellWidth+padRight <= lengths[j]+1 {
      b.WriteRune(' ') // add an extra space if the cell is not full
  }
  b.WriteString(cell)
  b.WriteString(strings.Repeat(" ", padRight))
  \<close>
\<close>

definition format_cell ::
  "bool list \<Rightarrow> int list \<Rightarrow> nat \<Rightarrow> nat \<Rightarrow> string \<Rightarrow> panic + string" where
  "format_cell centered lengths i j cell =
     (if i = 1 then
        (if j < length centered then
           (if j < length lengths then
              (if centered ! j
               then Inr ('':'' @ Repeat ''-'' (max 0 (lengths ! j)) @ '':'')
               else Inr (Repeat ''-'' (max 0 (lengths ! j + 2))))
            else Inl IndexOutOfRange)
         else Inl IndexOutOfRange)
      else
        (if j < length lengths then
           (let cellWidth = int (RuneCountInString cell) in
            if j < length centered then
              (case pads (centered ! j) (lengths ! j) cellWidth of
                 (padLeft, padRight) \<Rightarrow>
                   Inr (Repeat '' '' padLeft
                        @ (if padLeft + cellWidth + padRight \<le> lengths ! j + 1 then '' '' else [])
                        @ cell
                        @ Repeat '' '' padRight))
            else Inl IndexOutOfRange)
         else Inl IndexOutOfRange))"

fun format_row ::
  "bool list \<Rightarrow> int list \<Rightarrow> nat \<Rightarrow> nat \<Rightarrow> string list \<Rightarrow> panic + string list" where
  "format_row centered lengths i j [] = Inr []"
| "format_row centered lengths i j (cell # row) =
     (case format_cell centered lengths i j cell of
        Inl e \<Rightarrow> Inl e
      | Inr cell' \<Rightarrow>
          (case format_row centered lengths i (Suc j) row of
             Inl e \<Rightarrow> Inl e
           | Inr row' \<Rightarrow> Inr (cell' # row')))"

fun format_rows ::
  "bool list \<Rightarrow> int list \<Rightarrow> nat \<Rightarrow> string list list \<Rightarrow> panic + string list list" where
  "format_rows centered lengths i [] = Inr []"
| "format_rows centered lengths i (row # matrix) =
     (case format_row centered lengths i 0 row of
        Inl e \<Rightarrow> Inl e
      | Inr row' \<Rightarrow>
          (case format_rows centered lengths (Suc i) matrix of
             Inl e \<Rightarrow> Inl e
           | Inr matrix' \<Rightarrow> Inr (row' # matrix')))"

text \<open>
  \<^verbatim>\<open>
  for _, row := range matrix { // build new table
      b.WriteRune('|'); b.WriteString(strings.Join(row, "|")); b.WriteRune('|'); b.WriteRune('\n')
  }
  \<close>
\<close>

definition build_table :: "string list list \<Rightarrow> string" where
  "build_table matrix = concat (map (\<lambda>row. ''|'' @ Join row ''|'' @ ''|\<newline>'') matrix)"

text \<open>
  The body of the loop over the tables, for one \<open>rawTable\<close>: \<open>Inr None\<close> is the
  \<open>continue\<close> of a block of fewer than three lines, \<open>Inr (Some t)\<close> the new text of the
  table, \<open>Inl\<close> a panic.
\<close>

definition reflow :: "string \<Rightarrow> panic + string option" where
  "reflow rawTable =
     (let lines = FieldsFunc rawTable CHR ''\<newline>'' in
      if length lines < 3 then Inr None
      else
        (let matrix = map parse_line lines;
             centered = map (\<lambda>cell. HasPrefix cell '':'' \<and> HasSuffix cell '':'') (matrix ! 1)
         in case lengths_rows (replicate (length (matrix ! 0)) 0) 0 matrix of
              Inl e \<Rightarrow> Inl e
            | Inr lengths \<Rightarrow>
                (case format_rows centered lengths 0 matrix of
                   Inl e \<Rightarrow> Inl e
                 | Inr matrix' \<Rightarrow> Inr (Some (build_table matrix')))))"

text \<open>
  The loop over the tables found in the text given to \<open>Prettify\<close>; each new table
  replaces the first occurrence of its \<open>rawTable\<close> in the current text \<open>s\<close>.
\<close>

fun tables_loop :: "string list \<Rightarrow> string \<Rightarrow> panic + string" where
  "tables_loop [] s = Inr s"
| "tables_loop (rawTable # tables) s =
     (case reflow rawTable of
        Inl e \<Rightarrow> Inl e
      | Inr None \<Rightarrow> tables_loop tables s
      | Inr (Some t) \<Rightarrow> tables_loop tables (Replace1 s rawTable t))"

text \<open>
  \<^verbatim>\<open>
  s = regexp.MustCompile(`\n{2,}`).ReplaceAllString(s, "\n\n") // normalize newlines
  s = strings.Trim(s, " \n")                                   // trim spaces and newlines
  return s + "\n" // add an extra newline
  \<close>
\<close>

definition cleanup :: "string \<Rightarrow> string" where
  "cleanup s =
     Trim (ReplaceAllString newlines_regexp s ''\<newline>\<newline>'') '' \<newline>'' @ ''\<newline>''"

definition Prettify :: "string \<Rightarrow> panic + string" where
  "Prettify s =
     (case tables_loop (FindAllString table_regexp s) s of
        Inl e \<Rightarrow> Inl e
      | Inr s' \<Rightarrow> Inr (cleanup s'))"

section \<open>Notions that the properties are stated with\<close>

text \<open>
  The name-spelling rule, in the words of the specification: the white space around a
  declared name is trimmed, a name of two bytes or more gets two dashes, a shorter one
  gets one dash.
\<close>

definition spelled :: "string \<Rightarrow> string" where
  "spelled s = (if 2 \<le> length (TrimSpace s) then ''--'' @ TrimSpace s else ''-'' @ TrimSpace s)"

text \<open>White space of ASCII: tab, newline, vertical tab, form feed, carriage return, space.\<close>

definition white :: "string \<Rightarrow> bool" where
  "white w \<longleftrightarrow> set w \<subseteq> {CHR 0x09, CHR ''\<newline>'', CHR 0x0B, CHR 0x0C, CHR 0x0D, CHR '' ''}"


text \<open>
  The nodes of a forest that are not hidden and have no hidden ancestor, with their depth:
  \<open>shown commands level c l\<close> when \<open>c\<close> is such a node at depth \<open>l\<close> of the forest
  \<open>commands\<close>, whose roots have depth \<open>level\<close>.
\<close>

inductive shown :: "Command list \<Rightarrow> nat \<Rightarrow> Command \<Rightarrow> nat \<Rightarrow> bool"
  for commands :: "Command list" and level :: nat where
  top: "c \<in> set commands \<Longrightarrow> \<not> Hidden c \<Longrightarrow> shown commands level c level"
| sub: "shown commands level p l \<Longrightarrow> c \<in> set (Commands p) \<Longrightarrow> \<not> Hidden c
         \<Longrightarrow> shown commands level c (Suc l)"

code_pred shown .

text \<open>A command that has only a name, the hidden mark and subcommands.\<close>

definition node :: "string \<Rightarrow> bool \<Rightarrow> Command list \<Rightarrow> Command" where
  "node name hidden subcommands = Command name [] [] [] [] [] [] [] hidden subcommands"

text \<open>The chains of names from a root of the forest down to a node.\<close>

inductive chain :: "Command list \<Rightarrow> string list \<Rightarrow> bool" where
  root: "c \<in> set commands \<Longrightarrow> chain commands [Name c]"
| down: "c \<in> set commands \<Longrightarrow> chain (Commands c) ns \<Longrightarrow> chain commands (Name c # ns)"

code_pred chain .

text \<open>A forest without hidden nodes.\<close>

function (sequential) all_visible :: "Command list \<Rightarrow> bool" where
  "all_visible [] \<longleftrightarrow> True"
| "all_visible (c # commands) \<longleftrightarrow>
     \<not> Hidden c \<and> all_visible (Commands c) \<and> all_visible commands"
  by pat_completeness auto
termination
proof (relation "measure (size_list size)")
  fix c :: Command and commands :: "Command list"
  show "(Commands c, c # commands) \<in> measure (size_list size)"
    by (cases c) simp
qed auto

text \<open>The qualified names of the templates of a forest, parents before children.\<close>

function (sequential) all_names :: "cliTabularCommandTemplate list \<Rightarrow> string list" where
  "all_names [] = []"
| "all_names (t # ts) = ct_Name t # all_names (ct_SubCommands t) @ all_names ts"
  by pat_completeness auto
termination
proof (relation "measure (size_list size)")
  fix t :: cliTabularCommandTemplate and ts :: "cliTabularCommandTemplate list"
  show "(ct_SubCommands t, t # ts) \<in> measure (size_list size)"
    by (cases t) simp
qed auto

text \<open>
  A rendered cell: the content between spaces, and not empty.
\<close>

definition padded :: "string \<Rightarrow> string \<Rightarrow> bool" where
  "padded p c \<longleftrightarrow>
     (\<exists>l r. set l \<subseteq> {CHR '' ''} \<and> set r \<subseteq> {CHR '' ''} \<and> p = l @ c @ r \<and> p \<noteq> [])"

section \<open>Facts about the string functions\<close>

declare scan_back.simps [simp del]
declare TrimRightSpace.simps [simp del]
declare find_all.simps [simp del]
declare replace_all.simps [simp del]


lemma list_shape:
  "s = [] \<or> (\<exists>a. s = [a]) \<or> (\<exists>a b. s = [a, b]) \<or> (\<exists>a b c. s = [a, b, c])
   \<or> (\<exists>a b c d r. s = a # b # c # d # r)"
  by (metis list.exhaust)

lemma decode_size_le: "snd (DecodeRuneInString s) \<le> length s"
  using list_shape [of s] by (elim disjE exE) (simp_all add: Let_def)

lemma decode_size_pos: "s \<noteq> [] \<Longrightarrow> 1 \<le> snd (DecodeRuneInString s)"
  using list_shape [of s] by (elim disjE exE) (simp_all add: Let_def)

lemma not_cont_ascii: "byte a < 0x80 \<Longrightarrow> \<not> cont a"
  by (simp add: cont_def)

lemma not_accepted_ascii: "byte a < 0x80 \<Longrightarrow> \<not> accepted b a"
  by (simp add: accepted_def accept_lo_def)

lemma decode_append_ascii:
  "s \<noteq> [] \<Longrightarrow> byte a < 0x80 \<Longrightarrow> DecodeRuneInString (s @ a # t) = DecodeRuneInString s"
  using list_shape [of s]
  by (elim disjE exE) (simp_all add: Let_def not_cont_ascii not_accepted_ascii split: list.split)

lemma decode_append_valid:
  "fst (DecodeRuneInString p) \<noteq> RuneError \<Longrightarrow>
     DecodeRuneInString (p @ t) = DecodeRuneInString p"
  using list_shape [of p]
  by (elim disjE exE) (simp_all add: Let_def RuneError_def split: if_splits list.split)

lemma IsSpace_RuneError: "\<not> IsSpace RuneError"
  by (simp add: IsSpace_def RuneError_def)

lemma RuneCount_ascii_append:
  "\<forall>c\<in>set a. byte c < 0x80 \<Longrightarrow> RuneCountInString (a @ t) = length a + RuneCountInString t"
  by (induction a) (simp_all add: RuneSelf_def)

lemma RuneCount_append_ascii:
  "byte a < 0x80 \<Longrightarrow>
     RuneCountInString (s @ a # t) = RuneCountInString s + RuneCountInString (a # t)"
proof (induction s rule: RuneCountInString.induct)
  case 1
  then show ?case by simp
next
  case (2 c cs)
  let ?k = "snd (DecodeRuneInString (c # cs))"
  have k: "?k - 1 \<le> length cs"
    using decode_size_le [of "c # cs"] by simp
  have d: "DecodeRuneInString (c # cs @ a # t) = DecodeRuneInString (c # cs)"
    using decode_append_ascii [of "c # cs" a t] 2(2) by simp
  show ?case
  proof (cases "drop (?k - 1) cs = []")
    case True
    then show ?thesis using k d by (simp del: DecodeRuneInString.simps)
  next
    case False
    then show ?thesis using k d 2 by (simp del: DecodeRuneInString.simps)
  qed
qed

lemma TrimLeftSpace_suffix: "\<exists>pre. s = pre @ TrimLeftSpace s"
proof (induction s rule: TrimLeftSpace.induct)
  case 1
  then show ?case by simp
next
  case (2 c cs)
  show ?case
  proof (cases "IsSpace (fst (DecodeRuneInString (c # cs)))")
    case True
    let ?k = "snd (DecodeRuneInString (c # cs)) - 1"
    from 2 True obtain pre where "drop ?k cs = pre @ TrimLeftSpace (drop ?k cs)"
      by blast
    then have "c # cs = (c # take ?k cs @ pre) @ TrimLeftSpace (drop ?k cs)"
      by (metis append.assoc append_Cons append_take_drop_id)
    moreover have "TrimLeftSpace (c # cs) = TrimLeftSpace (drop ?k cs)"
      using True by (simp del: DecodeRuneInString.simps)
    ultimately show ?thesis by metis
  next
    case False
    then show ?thesis by (simp del: DecodeRuneInString.simps)
  qed
qed

lemma TrimLeftSpace_first: "\<not> IsSpace (fst (DecodeRuneInString (TrimLeftSpace s)))"
  by (induction s rule: TrimLeftSpace.induct)
     (simp_all add: IsSpace_RuneError del: DecodeRuneInString.simps(2))

lemma TrimRightSpace_prefix: "\<exists>post. s = TrimRightSpace s @ post"
proof (induction s rule: TrimRightSpace.induct)
  case (1 s)
  show ?case
  proof (cases "s \<noteq> [] \<and> IsSpace (fst (DecodeLastRuneInString s))")
    case True
    let ?t = "take (length s - snd (DecodeLastRuneInString s)) (butlast s)"
    from 1 True obtain post where "?t = TrimRightSpace ?t @ post"
      by blast
    moreover have "\<exists>r. s = ?t @ r"
      by (metis append.assoc append_take_drop_id True append_butlast_last_id)
    ultimately obtain r where "s = TrimRightSpace ?t @ post @ r"
      by (metis append.assoc)
    moreover have "TrimRightSpace s = TrimRightSpace ?t"
      using True by (subst TrimRightSpace.simps) simp
    ultimately show ?thesis by metis
  next
    case False
    then have "TrimRightSpace s = s"
      by (subst TrimRightSpace.simps) auto
    then show ?thesis by simp
  qed
qed



text \<open>A prefix of a text whose first rune is no white space does not start with white space.\<close>

lemma prefix_first_not_space:
  assumes "\<not> IsSpace (fst (DecodeRuneInString (p @ t)))"
  shows "\<not> IsSpace (fst (DecodeRuneInString p))"
proof
  assume sp: "IsSpace (fst (DecodeRuneInString p))"
  then have "fst (DecodeRuneInString p) \<noteq> RuneError"
    using IsSpace_RuneError by metis
  then have "DecodeRuneInString (p @ t) = DecodeRuneInString p"
    by (rule decode_append_valid)
  with sp assms show False by simp
qed

lemma TrimSpace_infix: "\<exists>pre post. s = pre @ TrimSpace s @ post"
proof -
  obtain pre where a: "s = pre @ TrimLeftSpace s"
    using TrimLeftSpace_suffix by blast
  obtain post where b: "TrimLeftSpace s = TrimRightSpace (TrimLeftSpace s) @ post"
    using TrimRightSpace_prefix by blast
  from a b have "s = pre @ TrimSpace s @ post"
    unfolding TrimSpace_def by metis
  then show ?thesis by blast
qed

lemma TrimSpace_first: "\<not> IsSpace (fst (DecodeRuneInString (TrimSpace s)))"
proof -
  obtain post where "TrimLeftSpace s = TrimSpace s @ post"
    unfolding TrimSpace_def using TrimRightSpace_prefix by blast
  then show ?thesis
    using TrimLeftSpace_first [of s] prefix_first_not_space by metis
qed


section \<open>TextPreparer: the prepared string\<close>



section \<open>FlagFormatter: names, order, white space\<close>

lemma Join_Cons: "Join (e # es) sep = e @ concat (map (\<lambda>x. sep @ x) es)"
  by (induction es arbitrary: e) simp_all

lemma spelled_not_Nil: "spelled s \<noteq> []"
  by (simp add: spelled_def)

lemma names_loop_grown:
  "length opener < length acc \<Longrightarrow>
     names_loop sep opener acc names = acc @ concat (map (\<lambda>s. sep @ spelled s) names)"
proof (induction names arbitrary: acc)
  case Nil
  then show ?case by simp
next
  case (Cons s names)
  have "length opener < length (acc @ sep @ spelled s)"
    using Cons.prems by simp
  then have "names_loop sep opener (acc @ sep @ spelled s) names
               = (acc @ sep @ spelled s) @ concat (map (\<lambda>s. sep @ spelled s) names)"
    by (rule Cons.IH)
  moreover have "names_loop sep opener acc (s # names)
                   = names_loop sep opener (acc @ sep @ spelled s) names"
    using Cons.prems by (simp add: Let_def spelled_def not_le less_Suc_eq_le Suc_le_eq)
  ultimately show ?case by simp
qed

lemma names_loop_Join:
  "names_loop sep opener opener names = opener @ Join (map spelled names) sep"
proof (cases names)
  case Nil
  then show ?thesis by simp
next
  case (Cons s rest)
  have "names_loop sep opener opener (s # rest) = names_loop sep opener (opener @ spelled s) rest"
    by (simp add: Let_def spelled_def not_le less_Suc_eq_le Suc_le_eq)
  also have "\<dots> = (opener @ spelled s) @ concat (map (\<lambda>s. sep @ spelled s) rest)"
    using spelled_not_Nil [of s] by (intro names_loop_grown) simp
  finally show ?thesis using Cons by (simp add: Join_Cons comp_def)
qed

lemma tabular_names_loop_aliases:
  "0 < i \<Longrightarrow> tabular_names_loop i f names
     = f\<lparr>ft_Aliases := ft_Aliases f @ map spelled names\<rparr>"
proof (induction names arbitrary: i f)
  case Nil
  then show ?case by simp
next
  case (Cons s names)
  then show ?case
    by (simp add: Let_def spelled_def not_le less_Suc_eq_le Suc_le_eq)
qed

lemma tabular_names_loop_first:
  "tabular_names_loop 0 f (s # names)
     = f\<lparr>ft_Name := ''--'' @ TrimSpace s, ft_Aliases := ft_Aliases f @ map spelled names\<rparr>"
  by (simp add: tabular_names_loop_aliases)

lemma flag_arg_Join:
  "flag_arg sep opener closer val addDetails flag
     = opener @ Join (map spelled (Names flag)) sep @ closer
       @ (if TakesValue flag then ''='' @ val else [])
       @ (if addDetails then flagDetails flag else [])
       @ ''\<newline>''"
  by (simp add: flag_arg_def Let_def names_loop_Join)

lemma PrepareFlag_loop:
  "\<exists>f. PrepareFlag flag = tabular_names_loop 0 f (Names flag)
       \<and> ft_Name f = [] \<and> ft_Aliases f = []"
proof (cases "BoolValue flag")
  case None
  then show ?thesis
    unfolding PrepareFlag_def Let_def by (intro exI conjI) (simp, simp, simp)
next
  case (Some v)
  then show ?thesis
    unfolding PrepareFlag_def Let_def by (intro exI conjI) (simp, simp, simp)
qed

lemma PrepareFlag_Name:
  "Names flag = s # names \<Longrightarrow> ft_Name (PrepareFlag flag) = ''--'' @ TrimSpace s"
proof -
  assume n: "Names flag = s # names"
  obtain f where f: "PrepareFlag flag = tabular_names_loop 0 f (Names flag)"
    using PrepareFlag_loop by blast
  show ?thesis
    unfolding f n tabular_names_loop_first by simp
qed

lemma PrepareFlag_Aliases: "ft_Aliases (PrepareFlag flag) = map spelled (tl (Names flag))"
proof -
  obtain f where f: "PrepareFlag flag = tabular_names_loop 0 f (Names flag)"
    and a: "ft_Aliases f = []"
    using PrepareFlag_loop by blast
  show ?thesis
  proof (cases "Names flag")
    case Nil
    then show ?thesis unfolding f using a by simp
  next
    case (Cons s names)
    then show ?thesis unfolding f Cons tabular_names_loop_first using a by simp
  qed
qed

text \<open>
  C7 (as amended).  In the flowing modes every name of a flag, and in the tabular mode
  every name after the first, is spelled by the rule: one dash before a trimmed name of one
  byte, two dashes before a trimmed name of two bytes or more.  The first name of a flag in
  the tabular mode gets two dashes whatever its length.
\<close>

theorem flag_names_spelling:
  "flag_arg sep opener closer val addDetails flag
     = opener @ Join (map spelled (Names flag)) sep @ closer
       @ (if TakesValue flag then ''='' @ val else [])
       @ (if addDetails then flagDetails flag else [])
       @ ''\<newline>''
   \<and> ft_Aliases (PrepareFlag flag) = map spelled (tl (Names flag))
   \<and> (\<forall>s names. Names flag = s # names \<longrightarrow> ft_Name (PrepareFlag flag) = ''--'' @ TrimSpace s)
   \<and> (\<forall>s. length (TrimSpace s) = 1 \<longrightarrow> spelled s = ''-'' @ TrimSpace s)
   \<and> (\<forall>s. 2 \<le> length (TrimSpace s) \<longrightarrow> spelled s = ''--'' @ TrimSpace s)"
proof -
  have "length (TrimSpace s) = 1 \<longrightarrow> spelled s = ''-'' @ TrimSpace s" for s
    by (simp add: spelled_def)
  moreover have "2 \<le> length (TrimSpace s) \<longrightarrow> spelled s = ''--'' @ TrimSpace s" for s
    by (simp add: spelled_def)
  ultimately show ?thesis
    using flag_arg_Join [of sep opener closer val addDetails flag]
      PrepareFlag_Aliases [of flag] PrepareFlag_Name [of flag]
    by blast
qed

theorem flag_names_spelling_witness:
  "flag_arg '', '' ''**'' ''**'' [CHR 0x22, CHR 0x22] True
       \<lparr>DocGeneration = True, Names = [''v'', ''verbose''], TakesValue = False,
        GetUsage = ''be verbose'', GetValue = [], GetEnvVars = [], BoolValue = None\<rparr>
     = ''**-v, --verbose**: be verbose\<newline>''
   \<and> ft_Aliases (PrepareFlag
       \<lparr>DocGeneration = True, Names = [''v'', ''verbose'', ''x''], TakesValue = False,
        GetUsage = ''be verbose'', GetValue = [], GetEnvVars = [], BoolValue = None\<rparr>)
     = [''--verbose'', ''-x'']
   \<and> spelled ''v'' = ''-v'' \<and> spelled ''verbose'' = ''--verbose''"
proof -
  let ?f = "\<lparr>DocGeneration = True, Names = [''v'', ''verbose''], TakesValue = False,
        GetUsage = ''be verbose'', GetValue = [], GetEnvVars = [], BoolValue = None\<rparr>"
  let ?g = "\<lparr>DocGeneration = True, Names = [''v'', ''verbose'', ''x''], TakesValue = False,
        GetUsage = ''be verbose'', GetValue = [], GetEnvVars = [], BoolValue = None\<rparr>"
  have t: "TrimSpace ''v'' = ''v''" "TrimSpace ''verbose'' = ''verbose''" "TrimSpace ''x'' = ''x''"
    by code_simp+
  have s: "spelled ''v'' = ''-v''" "spelled ''verbose'' = ''--verbose''" "spelled ''x'' = ''-x''"
    by (simp_all add: spelled_def t)
  show ?thesis
    using flag_names_spelling [of "'', ''" "''**''" "''**''" "[CHR 0x22, CHR 0x22]" True ?f]
      flag_names_spelling [of "'', ''" "''**''" "''**''" "[CHR 0x22, CHR 0x22]" True ?g]
    by (simp add: s flagDetails_def)
qed

text \<open>
  The claim C7 as stated fails: the tabular mode renders the one-byte first name \<open>v\<close> as
  \<open>--v\<close>.
\<close>

theorem flag_names_spelling_counterexample:
  "ft_Name (PrepareFlag
      \<lparr>DocGeneration = True, Names = [''v'', ''verbose''], TakesValue = False,
       GetUsage = ''be verbose'', GetValue = [], GetEnvVars = [], BoolValue = None\<rparr>) = ''--v''
   \<and> ''--v'' \<noteq> ''-v''
   \<and> length ''v'' = 1"
  by code_simp

lemma TrimRightSpace_Nil: "TrimRightSpace [] = []"
  by (subst TrimRightSpace.simps) simp

lemma white_byte: "white w \<Longrightarrow> c \<in> set w \<Longrightarrow> byte c < 0x80 \<and> IsSpace (byte c)"
  unfolding white_def by (auto simp: byte_def IsSpace_def)

lemma white_Cons: "white (a # w) \<longleftrightarrow> white [a] \<and> white w"
  by (auto simp: white_def)

lemma white_append: "white (u @ w) \<longleftrightarrow> white u \<and> white w"
  by (auto simp: white_def)

lemma TrimLeftSpace_white: "white l \<Longrightarrow> TrimLeftSpace (l @ x) = TrimLeftSpace x"
proof (induction l)
  case Nil
  then show ?case by simp
next
  case (Cons a l)
  then have "byte a < 0x80" "IsSpace (byte a)" "white l"
    using white_byte [of "a # l" a] by (simp_all add: white_def)
  then show ?case using Cons.IH by (simp add: RuneSelf_def)
qed

lemma TrimRightSpace_snoc:
  assumes "byte a < 0x80" "IsSpace (byte a)"
  shows "TrimRightSpace (x @ [a]) = TrimRightSpace x"
proof -
  have "DecodeLastRuneInString (x @ [a]) = (byte a, 1)"
    using assms by (simp add: DecodeLastRuneInString_def RuneSelf_def)
  then show ?thesis
    using assms by (subst TrimRightSpace.simps) simp
qed

lemma TrimRightSpace_white: "white r \<Longrightarrow> TrimRightSpace (x @ r) = TrimRightSpace x"
proof (induction r rule: rev_induct)
  case Nil
  then show ?case by simp
next
  case (snoc a r)
  then have "byte a < 0x80" "IsSpace (byte a)" "white r"
    using white_byte [of "r @ [a]" a] by (simp_all add: white_def)
  then show ?case
    using snoc.IH TrimRightSpace_snoc [of a "x @ r"] by simp
qed

lemma TrimLeftSpace_append_white:
  "white r \<Longrightarrow>
     TrimLeftSpace (n @ r) = (if TrimLeftSpace n = [] then [] else TrimLeftSpace n @ r)"
proof (induction n rule: TrimLeftSpace.induct)
  case 1
  then show ?case using TrimLeftSpace_white [of r "[]"] by simp
next
  case (2 c cs)
  show ?case
  proof (cases r)
    case Nil
    then show ?thesis by simp
  next
    case (Cons a t)
    then have a: "byte a < 0x80"
      using white_byte [of r a] 2(2) by simp
    let ?k = "snd (DecodeRuneInString (c # cs)) - 1"
    have d: "DecodeRuneInString (c # cs @ a # t) = DecodeRuneInString (c # cs)"
      using decode_append_ascii [of "c # cs" a t] a by simp
    have k: "?k \<le> length cs"
      using decode_size_le [of "c # cs"] by simp
    show ?thesis
    proof (cases "IsSpace (fst (DecodeRuneInString (c # cs)))")
      case True
      then have "TrimLeftSpace ((c # cs) @ r) = TrimLeftSpace (drop ?k cs @ r)"
        using d k Cons by (simp del: DecodeRuneInString.simps)
      moreover have "TrimLeftSpace (c # cs) = TrimLeftSpace (drop ?k cs)"
        using True by (simp del: DecodeRuneInString.simps)
      ultimately show ?thesis using 2 True by simp
    next
      case False
      then show ?thesis using d Cons by (simp del: DecodeRuneInString.simps)
    qed
  qed
qed

lemma TrimSpace_padding:
  assumes "white l" "white r"
  shows "TrimSpace (l @ n @ r) = TrimSpace n"
proof -
  have "TrimLeftSpace (l @ n @ r) = TrimLeftSpace (n @ r)"
    using assms(1) by (rule TrimLeftSpace_white)
  then show ?thesis
    using TrimLeftSpace_append_white [OF assms(2), of n]
      TrimRightSpace_white [OF assms(2), of "TrimLeftSpace n"]
    by (simp add: TrimSpace_def TrimRightSpace_Nil)
qed










section \<open>FlagFormatter: the order of the flags in prose\<close>

lemma prepareFlags_sorted: "sorted (prepareFlags flags sep opener closer val addDetails)"
  by (simp add: prepareFlags_def)

lemma prepareFlags_mset:
  "mset (prepareFlags flags sep opener closer val addDetails)
     = image_mset (flag_arg sep opener closer val addDetails)
         (filter_mset DocGeneration (mset flags))"
  by (simp add: prepareFlags_def)

text \<open>
  C8.  The strings of \<open>prepareFlags\<close> are made one per documented flag, each from its own
  flag alone, and are returned in increasing lexicographic order; flags declared in another
  order give the same list.
\<close>

theorem prepareFlags_sorted_whatever_order:
  "sorted (prepareFlags flags sep opener closer val addDetails)
   \<and> mset (prepareFlags flags sep opener closer val addDetails)
       = image_mset (flag_arg sep opener closer val addDetails)
           (filter_mset DocGeneration (mset flags))
   \<and> (mset flags' = mset flags \<longrightarrow>
        prepareFlags flags' sep opener closer val addDetails
          = prepareFlags flags sep opener closer val addDetails)"
proof -
  have "prepareFlags flags' sep opener closer val addDetails
          = prepareFlags flags sep opener closer val addDetails"
    if "mset flags' = mset flags"
  proof -
    let ?xs = "map (flag_arg sep opener closer val addDetails) (filter DocGeneration flags')"
    let ?ys = "prepareFlags flags sep opener closer val addDetails"
    have "mset ?ys = mset ?xs"
      unfolding prepareFlags_mset using that by simp
    then have "sort ?xs = ?ys"
      using prepareFlags_sorted by (rule properties_for_sort)
    then show ?thesis
      by (simp add: prepareFlags_def)
  qed
  then show ?thesis
    using prepareFlags_sorted prepareFlags_mset by blast
qed

theorem prepareFlags_sorted_whatever_order_witness:
  "prepareArgsWithValues
     [\<lparr>DocGeneration = True, Names = [''verbose'', ''v''], TakesValue = False,
       GetUsage = ''be verbose'', GetValue = [], GetEnvVars = [], BoolValue = None\<rparr>,
      \<lparr>DocGeneration = False, Names = [''hidden''], TakesValue = False,
       GetUsage = [], GetValue = [], GetEnvVars = [], BoolValue = None\<rparr>,
      \<lparr>DocGeneration = True, Names = [''count''], TakesValue = True,
       GetUsage = ''how many'', GetValue = ''3'', GetEnvVars = [], BoolValue = None\<rparr>]
   = [''**--count**='' @ [CHR 0x22, CHR 0x22] @ '': how many (default: 3)\<newline>'',
      ''**--verbose, -v**: be verbose\<newline>'']
   \<and> prepareArgsWithValues
     [\<lparr>DocGeneration = True, Names = [''count''], TakesValue = True,
       GetUsage = ''how many'', GetValue = ''3'', GetEnvVars = [], BoolValue = None\<rparr>,
      \<lparr>DocGeneration = False, Names = [''hidden''], TakesValue = False,
       GetUsage = [], GetValue = [], GetEnvVars = [], BoolValue = None\<rparr>,
      \<lparr>DocGeneration = True, Names = [''verbose'', ''v''], TakesValue = False,
       GetUsage = ''be verbose'', GetValue = [], GetEnvVars = [], BoolValue = None\<rparr>]
   = [''**--count**='' @ [CHR 0x22, CHR 0x22] @ '': how many (default: 3)\<newline>'',
      ''**--verbose, -v**: be verbose\<newline>'']"
proof -
  let ?a = "\<lparr>DocGeneration = True, Names = [''verbose'', ''v''], TakesValue = False,
       GetUsage = ''be verbose'', GetValue = [], GetEnvVars = [], BoolValue = None\<rparr>"
  let ?b = "\<lparr>DocGeneration = False, Names = [''hidden''], TakesValue = False,
       GetUsage = [], GetValue = [], GetEnvVars = [], BoolValue = None\<rparr>"
  let ?c = "\<lparr>DocGeneration = True, Names = [''count''], TakesValue = True,
       GetUsage = ''how many'', GetValue = ''3'', GetEnvVars = [], BoolValue = None\<rparr>"
  have m: "mset [?c, ?b, ?a] = mset [?a, ?b, ?c]"
    by (simp add: add.commute)
  have v: "prepareArgsWithValues [?a, ?b, ?c]
     = [''**--count**='' @ [CHR 0x22, CHR 0x22] @ '': how many (default: 3)\<newline>'',
        ''**--verbose, -v**: be verbose\<newline>'']"
    by code_simp
  have "prepareArgsWithValues [?c, ?b, ?a] = prepareArgsWithValues [?a, ?b, ?c]"
    unfolding prepareArgsWithValues_def
    using prepareFlags_sorted_whatever_order
      [of "[?a, ?b, ?c]" "'', ''" "''**''" "''**''" "[CHR 0x22, CHR 0x22]" True "[?c, ?b, ?a]"] m
    by blast
  then show ?thesis using v by simp
qed

section \<open>TreeFlattener: hidden commands\<close>

lemma shown_tail: "shown commands level x l \<Longrightarrow> shown (c # commands) level x l"
  by (induction rule: shown.induct) (auto intro: shown.intros)

lemma shown_below:
  "shown (Commands c) (Suc level) x l \<Longrightarrow> \<not> Hidden c \<Longrightarrow> shown (c # commands) level x l"
proof (induction rule: shown.induct)
  case (top x)
  have "shown (c # commands) level c level"
    using top.prems by (intro shown.top) simp_all
  then show ?case using top.hyps by (rule shown.sub)
next
  case (sub p l x)
  then show ?case by (auto intro: shown.sub)
qed

lemma shown_Cons_cases:
  assumes "shown (c # commands) level x l"
  shows "(\<not> Hidden c \<and> (x = c \<and> l = level \<or> shown (Commands c) (Suc level) x l))
         \<or> shown commands level x l"
  using assms
proof (induction rule: shown.induct)
  case (top x)
  then show ?case by (auto intro: shown.top)
next
  case (sub p l x)
  then show ?case by (auto intro: shown.intros)
qed

lemma shown_Cons:
  "shown (c # commands) level x l \<longleftrightarrow>
     (\<not> Hidden c \<and> (x = c \<and> l = level \<or> shown (Commands c) (Suc level) x l))
     \<or> shown commands level x l"
proof
  assume "shown (c # commands) level x l"
  then show "(\<not> Hidden c \<and> (x = c \<and> l = level \<or> shown (Commands c) (Suc level) x l))
             \<or> shown commands level x l"
    by (rule shown_Cons_cases)
next
  assume "(\<not> Hidden c \<and> (x = c \<and> l = level \<or> shown (Commands c) (Suc level) x l))
          \<or> shown commands level x l"
  then show "shown (c # commands) level x l"
    using shown_tail shown_below shown.top [of c "c # commands" level] by auto
qed

lemma shown_Nil: "\<not> shown [] level x l"
proof
  assume "shown [] level x l"
  then show False by (induction rule: shown.induct) simp_all
qed

lemma prepareCommands_shown:
  "set (prepareCommands commands level) = {prepared c l | c l. shown commands level c l}"
proof (induction commands level rule: prepareCommands.induct)
  case (1 level)
  then show ?case by (simp add: shown_Nil)
next
  case (2 command commands level)
  show ?case
  proof (cases "Hidden command")
    case True
    then show ?thesis using 2 by (simp add: shown_Cons)
  next
    case False
    have sub: "set (if length (Commands command) > 0
                    then prepareCommands (Commands command) (level + 1) else [])
               = {prepared c l | c l. shown (Commands command) (Suc level) c l}"
    proof (cases "Commands command")
      case Nil
      then show ?thesis by (simp add: shown_Nil)
    next
      case (Cons a list)
      then show ?thesis using 2(2) False by simp
    qed
    have "set (prepareCommands (command # commands) level)
            = insert (prepared command level)
                ({prepared c l | c l. shown (Commands command) (Suc level) c l}
                 \<union> {prepared c l | c l. shown commands level c l})"
      using False sub 2(3) by simp
    also have "\<dots> = {prepared c l | c l. shown (command # commands) level c l}"
      using False by (auto simp: shown_Cons)
    finally show ?thesis .
  qed
qed

lemma chain_Nil: "\<not> chain [] ns"
proof
  assume "chain [] ns"
  then show False by cases simp_all
qed

lemma chain_Cons:
  "chain (c # commands) ns \<longleftrightarrow>
     ns = [Name c] \<or> (\<exists>ms. ns = Name c # ms \<and> chain (Commands c) ms) \<or> chain commands ns"
proof
  assume "chain (c # commands) ns"
  then show "ns = [Name c] \<or> (\<exists>ms. ns = Name c # ms \<and> chain (Commands c) ms)
             \<or> chain commands ns"
    by cases (auto intro: chain.intros)
next
  assume "ns = [Name c] \<or> (\<exists>ms. ns = Name c # ms \<and> chain (Commands c) ms)
          \<or> chain commands ns"
  moreover have "chain (c # commands) ns" if "chain commands ns"
    using that by cases (auto intro: chain.intros)
  ultimately show "chain (c # commands) ns"
    by (auto intro: chain.intros)
qed

lemma chain_not_Nil: "chain commands ns \<Longrightarrow> ns \<noteq> []"
  by (cases rule: chain.cases) auto

lemma PrepareCommands_names:
  "set (all_names (PrepareCommands commands appPath parent level))
     = {TrimSpace (parent @ concat (map (\<lambda>n. '' '' @ n) ns)) | ns. chain commands ns}"
proof (induction commands appPath parent level rule: PrepareCommands.induct)
  case (1 appPath parentCommandName level)
  then show ?case by (simp add: chain_Nil)
next
  case (2 cmd commands appPath parentCommandName level)
  let ?f = "\<lambda>parent ns. TrimSpace (parent @ concat (map (\<lambda>n. '' '' @ n) ns))"
  let ?p = "Join [parentCommandName, Name cmd] '' ''"
  have p: "?p = parentCommandName @ '' '' @ Name cmd"
    by simp
  have "set (all_names (PrepareCommands (cmd # commands) appPath parentCommandName level))
          = insert (TrimSpace ?p)
              ({?f ?p ms | ms. chain (Commands cmd) ms}
               \<union> {?f parentCommandName ns | ns. chain commands ns})"
    using 2 by simp
  also have "\<dots> = insert (TrimSpace ?p)
                (?f ?p ` {ms. chain (Commands cmd) ms}
                 \<union> ?f parentCommandName ` {ns. chain commands ns})"
    by (simp only: setcompr_eq_image)
  also have "\<dots> = ?f parentCommandName
                ` insert [Name cmd]
                    ((\<lambda>ms. Name cmd # ms) ` {ms. chain (Commands cmd) ms}
                     \<union> {ns. chain commands ns})"
    by (simp add: image_Un image_image)
  also have "insert [Name cmd]
               ((\<lambda>ms. Name cmd # ms) ` {ms. chain (Commands cmd) ms}
                \<union> {ns. chain commands ns})
             = {ns. chain (cmd # commands) ns}"
    by (auto simp: chain_Cons)
  finally show ?case
    by (simp only: setcompr_eq_image)
qed

lemma TrimSpace_leading_space: "TrimSpace ('' '' @ s) = TrimSpace s"
  using TrimSpace_padding [of "'' ''" "[]" s] by (simp add: white_def)

lemma PrepareCommands_root_names:
  "set (all_names (PrepareCommands commands appPath [] level))
     = {TrimSpace (Join ns '' '') | ns. chain commands ns}"
proof -
  have eq: "TrimSpace ([] @ concat (map (\<lambda>n. '' '' @ n) ns)) = TrimSpace (Join ns '' '')"
    if c: "chain commands ns" for ns
  proof -
    obtain n ms where "ns = n # ms"
      using chain_not_Nil [OF c] by (cases ns) auto
    then show ?thesis
      using TrimSpace_leading_space [of "Join ns '' ''"] by (simp add: Join_Cons)
  qed
  show ?thesis
    unfolding PrepareCommands_names
  proof (intro set_eqI iffI)
    fix x
    assume "x \<in> {TrimSpace ([] @ concat (map (\<lambda>n. '' '' @ n) ns)) | ns. chain commands ns}"
    then obtain ns where "x = TrimSpace ([] @ concat (map (\<lambda>n. '' '' @ n) ns))"
      "chain commands ns"
      by blast
    then show "x \<in> {TrimSpace (Join ns '' '') | ns. chain commands ns}"
      using eq by blast
  next
    fix x
    assume "x \<in> {TrimSpace (Join ns '' '') | ns. chain commands ns}"
    then obtain ns where x: "x = TrimSpace (Join ns '' '')" and c: "chain commands ns"
      by blast
    have "x = TrimSpace ([] @ concat (map (\<lambda>n. '' '' @ n) ns))"
      unfolding x by (rule eq [OF c, symmetric])
    then show "x \<in> {TrimSpace ([] @ concat (map (\<lambda>n. '' '' @ n) ns)) | ns. chain commands ns}"
      using c by blast
  qed
qed

text \<open>
  C4 (as amended).  In the flowing mode a hidden node is left out together with every node
  below it: \<open>prepareCommands\<close> holds the blocks of exactly the nodes that are not hidden
  and have no hidden ancestor, each with its depth.  In the tabular mode, for a tree without
  hidden nodes, the qualified names are the chains of names from a root to a node, joined
  by single spaces and trimmed.
\<close>

theorem hidden_commands_left_out:
  "set (prepareCommands commands level) = {prepared c l | c l. shown commands level c l}
   \<and> (all_visible commands \<longrightarrow>
        set (all_names (PrepareCommands commands appPath [] 0))
          = {TrimSpace (Join ns '' '') | ns. chain commands ns})"
  using prepareCommands_shown PrepareCommands_root_names by blast

theorem hidden_commands_left_out_witness:
  "prepared (node ''d'' False []) 1
     \<in> set (prepareCommands
              [node ''p'' False [node ''h'' True [node ''c'' False []], node ''d'' False []]] 0)
   \<and> ''p d'' \<in> set (all_names (PrepareCommands [node ''p'' False [node ''d'' False []]] ''app'' [] 0))"
proof -
  let ?d = "node ''d'' False []"
  let ?p = "node ''p'' False [node ''h'' True [node ''c'' False []], ?d]"
  let ?q = "node ''p'' False [?d]"
  have "shown [?p] 0 ?p 0"
    by (rule shown.top) (simp_all add: node_def)
  then have "shown [?p] 0 ?d (Suc 0)"
    by (rule shown.sub) (simp_all add: node_def)
  then have 1: "prepared ?d 1 \<in> set (prepareCommands [?p] 0)"
    using hidden_commands_left_out [of "[?p]" 0] by auto
  have v: "all_visible [?q]"
    by (simp add: node_def)
  have "chain (Commands ?q) [Name ?d]"
    by (rule chain.root) (simp add: node_def)
  then have "chain [?q] (Name ?q # [Name ?d])"
    by (rule chain.down [rotated]) simp
  then have c: "chain [?q] [''p'', ''d'']"
    by (simp add: node_def)
  have t: "TrimSpace (Join [''p'', ''d''] '' '') = ''p d''"
    by code_simp
  have "TrimSpace (Join [''p'', ''d''] '' '') \<in> set (all_names (PrepareCommands [?q] ''app'' [] 0))"
    using hidden_commands_left_out [of "[?q]" 0 "''app''"] v c by blast
  then show ?thesis using 1 t by simp
qed

text \<open>
  The claim C4 as stated fails.  In the flowing mode the visible command \<open>c\<close> below the
  hidden command \<open>h\<close> does not appear.  In the tabular mode \<open>PrepareCommands\<close> does
  not look at the hidden mark: below the visible command \<open>p\<close> the hidden \<open>h\<close> appears,
  as a node and as a part of the qualified name of \<open>c\<close>.
\<close>

theorem hidden_commands_left_out_counterexample:
  "prepareCommands [node ''h'' True [node ''c'' False []]] 0 = []
   \<and> Hidden (node ''h'' True [node ''c'' False []])
   \<and> Commands (node ''h'' True [node ''c'' False []]) = [node ''c'' False []]
   \<and> Hidden (node ''c'' False []) = False
   \<and> all_names (PrepareCommands [node ''p'' False [node ''h'' True [node ''c'' False []]]]
        ''app'' [] 0) = [''p'', ''p h'', ''p h c'']"
  by code_simp

section \<open>TableReflowEngine: the padding of a cell\<close>

lemma quo_2: "0 \<le> a \<Longrightarrow> quo a 2 = a div 2"
  by (cases "a = 0") (simp_all add: quo_def)

lemma Repeat_byte: "Repeat [c] n = replicate (nat n) c"
  by (induction "nat n" arbitrary: n) (simp_all add: Repeat_def)

lemma Repeat_space_extra: "0 \<le> n \<Longrightarrow> Repeat '' '' n @ '' '' @ s = Repeat '' '' (n + 1) @ s"
  by (simp add: Repeat_byte nat_add_distrib replicate_append_same)

lemma pads_centered:
  assumes "0 \<le> d"
  shows "pads True len (len - d)
           = (if d < 2 then (1, 1) else (d div 2, d - d div 2 + 1))"
  using assms by (auto simp: pads_def Let_def quo_2)

lemma pads_left: "0 \<le> d \<Longrightarrow> pads False len (len - d) = (1, d + 1)"
  by (simp add: pads_def)

text \<open>
  The text of a cell outside the separator row, by the space \<open>d\<close> that the content leaves
  in its column.
\<close>

lemma format_cell_centered:
  assumes "i \<noteq> 1" "j < length lengths" "j < length centered" "centered ! j"
    and "d = lengths ! j - int (RuneCountInString cell)" "0 \<le> d"
  shows "format_cell centered lengths i j cell
           = Inr (Repeat '' '' (if d = 1 then 2 else (d + 2) div 2) @ cell
                  @ Repeat '' '' (if d = 1 then 1 else (d + 2) - (d + 2) div 2))"
proof -
  let ?w = "int (RuneCountInString cell)"
  have w: "?w = lengths ! j - d"
    using assms(5) by simp
  have p: "pads (centered ! j) (lengths ! j) ?w
             = (if d < 2 then (1, 1) else (d div 2, d - d div 2 + 1))"
    unfolding w using assms(4) pads_centered [OF assms(6)] by simp
  consider "d = 0" | "d = 1" | "2 \<le> d"
    using assms(6) by linarith
  then show ?thesis
  proof cases
    case 1
    then show ?thesis
      using assms(1-3) p by (simp add: format_cell_def Let_def w)
  next
    case 2
    then show ?thesis
      using assms(1-3) p Repeat_space_extra [of 1 "cell @ Repeat '' '' 1"]
      by (simp add: format_cell_def Let_def w)
  next
    case 3
    then have e: "d div 2 + (lengths ! j - d) + (d - d div 2 + 1) \<le> lengths ! j + 1"
      by simp
    have "0 \<le> d div 2"
      using 3 by simp
    then have r: "Repeat '' '' (d div 2) @ '' '' @ cell @ Repeat '' '' (d - d div 2 + 1)
                    = Repeat '' '' (d div 2 + 1) @ cell @ Repeat '' '' (d - d div 2 + 1)"
      by (rule Repeat_space_extra)
    have f: "format_cell centered lengths i j cell
            = Inr (Repeat '' '' (d div 2) @ '' '' @ cell @ Repeat '' '' (d - d div 2 + 1))"
      using assms(1-3) p 3 e by (simp add: format_cell_def Let_def w)
    have g1: "(if d = 1 then 2 else (d + 2) div 2) = d div 2 + 1"
      using 3 by simp
    have g2: "(if d = 1 then 1 else (d + 2) - (d + 2) div 2) = d - d div 2 + 1"
      using 3 by simp
    show ?thesis
      unfolding g1 g2 by (simp only: f r)
  qed
qed

lemma format_cell_left:
  assumes "i \<noteq> 1" "j < length lengths" "j < length centered" "\<not> centered ! j"
    and "d = lengths ! j - int (RuneCountInString cell)" "0 \<le> d"
  shows "format_cell centered lengths i j cell
           = Inr (Repeat '' '' 1 @ cell @ Repeat '' '' (d + 1))"
proof -
  let ?w = "int (RuneCountInString cell)"
  have w: "?w = lengths ! j - d"
    using assms(5) by simp
  have p: "pads (centered ! j) (lengths ! j) ?w = (1, d + 1)"
    unfolding w using assms(4) pads_left [OF assms(6)] by simp
  show ?thesis
    using assms(1-3) p by (simp add: format_cell_def Let_def w)
qed

text \<open>
  C5 (as amended).  In a centered column, a cell outside the separator row whose content
  leaves \<open>d \<ge> 0\<close> of the column width free gets \<open>d + 2\<close> spaces: the floor of the
  half on the left and the rest on the right, so that an odd space leaves the extra space on
  the right; but for \<open>d = 1\<close> the cell gets two spaces on the left and one on the right.
\<close>

theorem centered_cell_split:
  assumes "i \<noteq> 1" "j < length lengths" "j < length centered" "centered ! j"
    and "d = lengths ! j - int (RuneCountInString cell)" "0 \<le> d"
  shows "format_cell centered lengths i j cell
           = Inr (Repeat '' '' (if d = 1 then 2 else (d + 2) div 2) @ cell
                  @ Repeat '' '' (if d = 1 then 1 else (d + 2) - (d + 2) div 2))
         \<and> (d + 2) div 2 \<le> (d + 2) - (d + 2) div 2
         \<and> (odd d \<longrightarrow> (d + 2) - (d + 2) div 2 = (d + 2) div 2 + 1)"
proof -
  have "(d + 2) div 2 \<le> (d + 2) - (d + 2) div 2"
    by linarith
  moreover have "odd d \<longrightarrow> (d + 2) - (d + 2) div 2 = (d + 2) div 2 + 1"
    by presburger
  ultimately show ?thesis
    using format_cell_centered [OF assms] by blast
qed

theorem centered_cell_split_witness:
  "format_cell [True] [4] 0 0 ''a'' = Inr (''  a   '')
   \<and> format_cell [True] [2] 2 0 ''a'' = Inr (''  a '')"
proof -
  have r: "int (RuneCountInString ''a'') = 1"
    by code_simp
  have "format_cell [True] [4] 0 0 ''a''
          = Inr (Repeat '' '' (if (3::int) = 1 then 2 else (3 + 2) div 2) @ ''a''
                 @ Repeat '' '' (if (3::int) = 1 then 1 else (3 + 2) - (3 + 2) div 2))"
    using centered_cell_split [of 0 0 "[4]" "[True]" 3 "''a''"] r by simp
  moreover have "format_cell [True] [2] 2 0 ''a''
          = Inr (Repeat '' '' (if (1::int) = 1 then 2 else (1 + 2) div 2) @ ''a''
                 @ Repeat '' '' (if (1::int) = 1 then 1 else (1 + 2) - (1 + 2) div 2))"
    using centered_cell_split [of 2 0 "[2]" "[True]" 1 "''a''"] r by simp
  ultimately show ?thesis
    by (simp add: Repeat_byte eval_nat_numeral)
qed

text \<open>
  The claim C5 as stated fails: in a centered column of width 2 the cell \<open>a\<close> leaves the
  odd space 3, and it is rendered with two spaces on the left and one on the right.
\<close>

theorem centered_cell_split_counterexample:
  "Prettify ''|a|\<newline>|:-:|\<newline>|xx|\<newline>'' = Inr ''|  a |\<newline>|:--:|\<newline>| xx |\<newline>''
   \<and> format_cell [True] [2] 0 0 ''a'' = Inr (replicate 2 CHR '' '' @ ''a'' @ replicate 1 CHR '' '')"
  by code_simp

section \<open>TableReflowEngine: the width of the cells\<close>

text \<open>The loop over one row leaves in \<open>lengths\<close> the maximum of the old value and the cell.\<close>

lemma lengths_row_result:
  assumes "lengths_row lengths i row = Inr lengths'" "i \<le> length lengths"
  shows "length lengths' = length lengths \<and> i + length row \<le> length lengths
         \<and> (\<forall>k < length lengths.
               lengths' ! k = (if i \<le> k \<and> k < i + length row
                               then max (lengths ! k) (int (RuneCountInString (row ! (k - i))))
                               else lengths ! k))"
  using assms
proof (induction row arbitrary: lengths i)
  case Nil
  then show ?case by simp
next
  case (Cons cell row)
  let ?l = "int (RuneCountInString cell)"
  let ?ls = "if ?l > lengths ! i then lengths[i := ?l] else lengths"
  from Cons.prems have i: "i < length lengths"
    and r: "lengths_row ?ls (Suc i) row = Inr lengths'"
    by (simp_all add: Let_def split: if_splits)
  have len: "length ?ls = length lengths"
    by simp
  from Cons.IH [OF r] i have ih: "length lengths' = length lengths"
    "Suc i + length row \<le> length lengths"
    "\<And>k. k < length lengths \<Longrightarrow>
        lengths' ! k = (if Suc i \<le> k \<and> k < Suc i + length row
                        then max (?ls ! k) (int (RuneCountInString (row ! (k - Suc i))))
                        else ?ls ! k)"
    unfolding len by (simp_all add: Suc_le_eq)
  have "lengths' ! k = (if i \<le> k \<and> k < i + length (cell # row)
                          then max (lengths ! k) (int (RuneCountInString ((cell # row) ! (k - i))))
                          else lengths ! k)"
    if k: "k < length lengths" for k
  proof (cases "k = i")
    case True
    then show ?thesis using ih(3) [OF k] i by (simp add: max_def)
  next
    case False
    then have "?ls ! k = lengths ! k"
      by simp
    moreover have "(cell # row) ! (k - i) = row ! (k - Suc i)" if "i \<le> k"
    proof -
      have "k - i = Suc (k - Suc i)"
        using that False by simp
      then show ?thesis by simp
    qed
    ultimately show ?thesis
      using ih(3) [OF k] False by auto
  qed
  then show ?case using ih(1,2) by simp
qed

lemma lengths_row_ge:
  assumes "lengths_row lengths 0 row = Inr lengths'"
  shows "length lengths' = length lengths" "length row \<le> length lengths"
    "\<And>k. k < length lengths \<Longrightarrow> lengths ! k \<le> lengths' ! k"
    "\<And>k. k < length row \<Longrightarrow> int (RuneCountInString (row ! k)) \<le> lengths' ! k"
    "\<And>k. k < length lengths \<Longrightarrow> lengths' ! k = lengths ! k
        \<or> (k < length row \<and> lengths' ! k = int (RuneCountInString (row ! k)))"
proof -
  note r = lengths_row_result [OF assms, simplified]
  show "length lengths' = length lengths" "length row \<le> length lengths"
    using r by simp_all
  show "lengths ! k \<le> lengths' ! k" if "k < length lengths" for k
    using r that by simp
  show "int (RuneCountInString (row ! k)) \<le> lengths' ! k" if "k < length row" for k
    using r that by simp
  show "lengths' ! k = lengths ! k
        \<or> (k < length row \<and> lengths' ! k = int (RuneCountInString (row ! k)))"
    if "k < length lengths" for k
    using r that by (auto simp: max_def)
qed

text \<open>
  What the loops over the matrix leave in \<open>lengths\<close>: every row but the separator row
  fits, every cell of such a row is at most as wide as its column, and every column width
  is the starting value or the width of one of these cells.
\<close>

lemma lengths_rows_result:
  assumes "lengths_rows lengths n matrix = Inr lengths'"
  shows "length lengths' = length lengths
         \<and> (\<forall>k < length lengths. lengths ! k \<le> lengths' ! k)
         \<and> (\<forall>r < length matrix. n + r \<noteq> 1 \<longrightarrow>
               length (matrix ! r) \<le> length lengths
               \<and> (\<forall>k < length (matrix ! r).
                     int (RuneCountInString (matrix ! r ! k)) \<le> lengths' ! k))
         \<and> (\<forall>k < length lengths. lengths' ! k = lengths ! k
               \<or> (\<exists>r < length matrix. n + r \<noteq> 1 \<and> k < length (matrix ! r)
                     \<and> lengths' ! k = int (RuneCountInString (matrix ! r ! k))))"
  using assms
proof (induction matrix arbitrary: lengths n)
  case Nil
  then show ?case by simp
next
  case (Cons row matrix)
  show ?case
  proof (cases "n = 1")
    case True
    then have "lengths_rows lengths (Suc n) matrix = Inr lengths'"
      using Cons.prems by simp
    from Cons.IH [OF this] have ih: "length lengths' = length lengths"
      "\<And>k. k < length lengths \<Longrightarrow> lengths ! k \<le> lengths' ! k"
      "\<And>r. r < length matrix \<Longrightarrow> Suc n + r \<noteq> 1 \<Longrightarrow>
          length (matrix ! r) \<le> length lengths
          \<and> (\<forall>k < length (matrix ! r).
                int (RuneCountInString (matrix ! r ! k)) \<le> lengths' ! k)"
      "\<And>k. k < length lengths \<Longrightarrow> lengths' ! k = lengths ! k
          \<or> (\<exists>r < length matrix. Suc n + r \<noteq> 1 \<and> k < length (matrix ! r)
                \<and> lengths' ! k = int (RuneCountInString (matrix ! r ! k)))"
      by blast+
    have a: "length ((row # matrix) ! r) \<le> length lengths
             \<and> (\<forall>k < length ((row # matrix) ! r).
                   int (RuneCountInString ((row # matrix) ! r ! k)) \<le> lengths' ! k)"
      if "r < length (row # matrix)" "n + r \<noteq> 1" for r
    proof (cases r)
      case 0
      then show ?thesis using that True by simp
    next
      case (Suc r')
      then show ?thesis using that ih(3) [of r'] True by simp
    qed
    have b: "lengths' ! k = lengths ! k
             \<or> (\<exists>r < length (row # matrix). n + r \<noteq> 1 \<and> k < length ((row # matrix) ! r)
                   \<and> lengths' ! k = int (RuneCountInString ((row # matrix) ! r ! k)))"
      if "k < length lengths" for k
    proof -
      from ih(4) [OF that] show ?thesis
      proof
        assume "lengths' ! k = lengths ! k"
        then show ?thesis by simp
      next
        assume "\<exists>r < length matrix. Suc n + r \<noteq> 1 \<and> k < length (matrix ! r)
                  \<and> lengths' ! k = int (RuneCountInString (matrix ! r ! k))"
        then obtain r where "r < length matrix" "k < length (matrix ! r)"
          "lengths' ! k = int (RuneCountInString (matrix ! r ! k))"
          by blast
        then have "Suc r < length (row # matrix) \<and> n + Suc r \<noteq> 1
                   \<and> k < length ((row # matrix) ! Suc r)
                   \<and> lengths' ! k = int (RuneCountInString ((row # matrix) ! Suc r ! k))"
          using True by simp
        then show ?thesis by blast
      qed
    qed
    show ?thesis using ih(1,2) a b by blast
  next
    case False
    then obtain mid where m: "lengths_row lengths 0 row = Inr mid"
      and rest: "lengths_rows mid (Suc n) matrix = Inr lengths'"
      using Cons.prems by (auto split: sum.splits)
    note row = lengths_row_ge [OF m]
    from Cons.IH [OF rest] have ih: "length lengths' = length mid"
      "\<And>k. k < length mid \<Longrightarrow> mid ! k \<le> lengths' ! k"
      "\<And>r. r < length matrix \<Longrightarrow> Suc n + r \<noteq> 1 \<Longrightarrow>
          length (matrix ! r) \<le> length mid
          \<and> (\<forall>k < length (matrix ! r).
                int (RuneCountInString (matrix ! r ! k)) \<le> lengths' ! k)"
      "\<And>k. k < length mid \<Longrightarrow> lengths' ! k = mid ! k
          \<or> (\<exists>r < length matrix. Suc n + r \<noteq> 1 \<and> k < length (matrix ! r)
                \<and> lengths' ! k = int (RuneCountInString (matrix ! r ! k)))"
      by blast+
    have l: "length lengths' = length lengths"
      using ih(1) row(1) by simp
    have mono: "lengths ! k \<le> lengths' ! k" if "k < length lengths" for k
      using row(3) [OF that] ih(2) [of k] that row(1) by simp
    have a: "length ((row # matrix) ! r) \<le> length lengths
             \<and> (\<forall>k < length ((row # matrix) ! r).
                   int (RuneCountInString ((row # matrix) ! r ! k)) \<le> lengths' ! k)"
      if "r < length (row # matrix)" "n + r \<noteq> 1" for r
    proof (cases r)
      case 0
      have "int (RuneCountInString (row ! k)) \<le> lengths' ! k" if "k < length row" for k
        using row(4) [OF that] ih(2) [of k] that row(1,2) by simp
      then show ?thesis using 0 row(2) by simp
    next
      case (Suc r')
      then show ?thesis using that ih(3) [of r'] row(1) by simp
    qed
    have b: "lengths' ! k = lengths ! k
             \<or> (\<exists>r < length (row # matrix). n + r \<noteq> 1 \<and> k < length ((row # matrix) ! r)
                   \<and> lengths' ! k = int (RuneCountInString ((row # matrix) ! r ! k)))"
      if k: "k < length lengths" for k
    proof -
      have km: "k < length mid"
        using k row(1) by simp
      from ih(4) [OF km] show ?thesis
      proof
        assume e: "lengths' ! k = mid ! k"
        from row(5) [OF k] show ?thesis
        proof
          assume "mid ! k = lengths ! k"
          then show ?thesis using e by simp
        next
          assume "k < length row \<and> mid ! k = int (RuneCountInString (row ! k))"
          then have "0 < length (row # matrix) \<and> n + 0 \<noteq> 1
                     \<and> k < length ((row # matrix) ! 0)
                     \<and> lengths' ! k = int (RuneCountInString ((row # matrix) ! 0 ! k))"
            using e False by simp
          then show ?thesis by blast
        qed
      next
        assume "\<exists>r < length matrix. Suc n + r \<noteq> 1 \<and> k < length (matrix ! r)
                  \<and> lengths' ! k = int (RuneCountInString (matrix ! r ! k))"
        then obtain r where "r < length matrix" "Suc n + r \<noteq> 1" "k < length (matrix ! r)"
          "lengths' ! k = int (RuneCountInString (matrix ! r ! k))"
          by blast
        then have "Suc r < length (row # matrix) \<and> n + Suc r \<noteq> 1
                   \<and> k < length ((row # matrix) ! Suc r)
                   \<and> lengths' ! k = int (RuneCountInString ((row # matrix) ! Suc r ! k))"
          by simp
        then show ?thesis by blast
      qed
    qed
    show ?thesis using l mono a b by blast
  qed
qed

lemma format_row_result:
  assumes "format_row centered lengths i j row = Inr row'"
  shows "length row' = length row
         \<and> (\<forall>k < length row. format_cell centered lengths i (j + k) (row ! k) = Inr (row' ! k))"
  using assms
proof (induction row arbitrary: j row')
  case Nil
  then show ?case by simp
next
  case (Cons cell row)
  then obtain cell' rest where c: "format_cell centered lengths i j cell = Inr cell'"
    and r: "format_row centered lengths i (Suc j) row = Inr rest"
    and e: "row' = cell' # rest"
    by (auto split: sum.splits)
  from Cons.IH [OF r] have ih: "length rest = length row"
    "\<And>k. k < length row \<Longrightarrow>
       format_cell centered lengths i (Suc j + k) (row ! k) = Inr (rest ! k)"
    by blast+
  have "format_cell centered lengths i (j + k) ((cell # row) ! k) = Inr (row' ! k)"
    if "k < length (cell # row)" for k
  proof (cases k)
    case 0
    then show ?thesis using c e by simp
  next
    case (Suc k')
    then show ?thesis using ih(2) [of k'] that e by simp
  qed
  then show ?case using ih(1) e by simp
qed

lemma format_rows_result:
  assumes "format_rows centered lengths i matrix = Inr matrix'"
  shows "length matrix' = length matrix
         \<and> (\<forall>r < length matrix.
               format_row centered lengths (i + r) 0 (matrix ! r) = Inr (matrix' ! r))"
  using assms
proof (induction matrix arbitrary: i matrix')
  case Nil
  then show ?case by simp
next
  case (Cons row matrix)
  then obtain row' rest where c: "format_row centered lengths i 0 row = Inr row'"
    and r: "format_rows centered lengths (Suc i) matrix = Inr rest"
    and e: "matrix' = row' # rest"
    by (auto split: sum.splits)
  from Cons.IH [OF r] have ih: "length rest = length matrix"
    "\<And>r. r < length matrix \<Longrightarrow>
       format_row centered lengths (Suc i + r) 0 (matrix ! r) = Inr (rest ! r)"
    by blast+
  have "format_row centered lengths (i + r) 0 ((row # matrix) ! r) = Inr (matrix' ! r)"
    if "r < length (row # matrix)" for r
  proof (cases r)
    case 0
    then show ?thesis using c e by simp
  next
    case (Suc r')
    then show ?thesis using ih(2) [of r'] that e by simp
  qed
  then show ?case using ih(1) e by simp
qed

lemma RuneCount_ascii: "\<forall>c\<in>set a. byte c < 0x80 \<Longrightarrow> RuneCountInString a = length a"
  using RuneCount_ascii_append [of a "[]"] by simp

lemma RuneCount_append_replicate:
  assumes "byte c < 0x80"
  shows "RuneCountInString (s @ replicate n c) = RuneCountInString s + n"
proof (cases n)
  case 0
  then show ?thesis by simp
next
  case (Suc m)
  have "RuneCountInString (c # replicate m c) = Suc m"
    using RuneCount_ascii [of "c # replicate m c"] assms by simp
  then show ?thesis
    using RuneCount_append_ascii [OF assms, of s "replicate m c"] Suc by simp
qed

lemma RuneCount_padded:
  assumes "0 \<le> l" "0 \<le> r"
  shows "int (RuneCountInString (Repeat '' '' l @ cell @ Repeat '' '' r))
           = l + int (RuneCountInString cell) + r"
proof -
  have sp: "byte CHR '' '' < 0x80"
    by (simp add: byte_def)
  have "RuneCountInString (replicate (nat l) CHR '' '' @ cell @ replicate (nat r) CHR '' '')
          = nat l + RuneCountInString (cell @ replicate (nat r) CHR '' '')"
    using RuneCount_ascii_append [of "replicate (nat l) CHR '' ''"] sp by simp
  then show ?thesis
    using assms RuneCount_append_replicate [OF sp] by (simp add: Repeat_byte)
qed

text \<open>A cell that fits its column is rendered with the width of the column plus 2.\<close>

lemma format_cell_width:
  assumes "format_cell centered lengths i j cell = Inr cell'"
    and "j < length lengths \<Longrightarrow> 0 \<le> lengths ! j"
    and "i \<noteq> 1 \<Longrightarrow> j < length lengths \<Longrightarrow> int (RuneCountInString cell) \<le> lengths ! j"
  shows "j < length lengths \<and> int (RuneCountInString cell') = lengths ! j + 2"
proof -
  from assms(1) have j: "j < length lengths" "j < length centered"
    by (auto simp: format_cell_def Let_def split: if_splits)
  have nn: "0 \<le> lengths ! j"
    using assms(2) j by simp
  show ?thesis
  proof (cases "i = 1")
    case True
    have d: "byte CHR ''-'' < 0x80" "byte CHR '':'' < 0x80"
      by (simp_all add: byte_def)
    show ?thesis
    proof (cases "centered ! j")
      case True
      then have "cell' = '':'' @ replicate (nat (lengths ! j)) CHR ''-'' @ '':''"
        using assms(1) \<open>i = 1\<close> j nn by (simp add: format_cell_def Repeat_byte)
      then have "RuneCountInString cell' = nat (lengths ! j) + 2"
        using RuneCount_ascii [of cell'] d by auto
      then show ?thesis using nn j by simp
    next
      case False
      then have "cell' = replicate (nat (lengths ! j + 2)) CHR ''-''"
        using assms(1) \<open>i = 1\<close> j nn by (simp add: format_cell_def Repeat_byte)
      then have "RuneCountInString cell' = nat (lengths ! j + 2)"
        using RuneCount_ascii [of cell'] d by auto
      then show ?thesis using nn j by simp
    qed
  next
    case False
    let ?d = "lengths ! j - int (RuneCountInString cell)"
    have d: "0 \<le> ?d"
      using assms(3) False j by simp
    show ?thesis
    proof (cases "centered ! j")
      case True
      let ?l = "if ?d = 1 then 2 else (?d + 2) div 2"
      let ?r = "if ?d = 1 then 1 else (?d + 2) - (?d + 2) div 2"
      have "cell' = Repeat '' '' ?l @ cell @ Repeat '' '' ?r"
        using format_cell_centered [OF False j True refl d] assms(1) by simp
      moreover have "0 \<le> ?l" "0 \<le> ?r" "?l + ?r = ?d + 2"
        using d by auto
      ultimately have "int (RuneCountInString cell') = ?d + 2 + int (RuneCountInString cell)"
        using RuneCount_padded [of ?l ?r cell] by simp
      then show ?thesis using j by simp
    next
      case c: False
      have "cell' = Repeat '' '' 1 @ cell @ Repeat '' '' (?d + 1)"
        using format_cell_left [OF False j c refl d] assms(1) by simp
      then have "int (RuneCountInString cell') = 1 + int (RuneCountInString cell) + (?d + 1)"
        using RuneCount_padded [of 1 "?d + 1" cell] d by simp
      then show ?thesis using j by simp
    qed
  qed
qed

text \<open>What a block that is reflowed went through.\<close>

lemma reflow_Some:
  assumes "reflow rawTable = Inr (Some t)"
    and "matrix = map parse_line (FieldsFunc rawTable CHR ''\<newline>'')"
  shows "\<exists>lengths matrix'.
           3 \<le> length matrix
           \<and> lengths_rows (replicate (length (matrix ! 0)) 0) 0 matrix = Inr lengths
           \<and> format_rows (map (\<lambda>cell. HasPrefix cell '':'' \<and> HasSuffix cell '':'') (matrix ! 1))
                lengths 0 matrix = Inr matrix'
           \<and> t = build_table matrix'"
  using assms(1) unfolding reflow_def Let_def assms(2)
  by (auto split: if_splits sum.splits)

text \<open>
  C1.  When \<open>reflow\<close> rewrites a block, the new matrix has the rows and cells of the
  parsed one, and every cell of a column, in the header, the separator row and the body,
  takes the width of the column plus 2 in runes.  The width of a column is the largest rune
  count among its cells outside the separator row: no such cell is wider, and one of them
  is that wide.
\<close>

theorem reflow_width_invariant:
  assumes "reflow rawTable = Inr (Some t)"
    and "matrix = map parse_line (FieldsFunc rawTable CHR ''\<newline>'')"
  shows "\<exists>matrix' lengths.
           t = build_table matrix' \<and> length matrix' = length matrix
           \<and> (\<forall>i < length matrix.
                 length (matrix' ! i) = length (matrix ! i)
                 \<and> (\<forall>j < length (matrix ! i).
                       j < length lengths
                       \<and> int (RuneCountInString (matrix' ! i ! j)) = lengths ! j + 2
                       \<and> (i \<noteq> 1 \<longrightarrow> int (RuneCountInString (matrix ! i ! j)) \<le> lengths ! j)))
           \<and> (\<forall>j < length lengths.
                 \<exists>i < length matrix. i \<noteq> 1 \<and> j < length (matrix ! i)
                   \<and> lengths ! j = int (RuneCountInString (matrix ! i ! j)))"
proof -
  let ?centered = "map (\<lambda>cell. HasPrefix cell '':'' \<and> HasSuffix cell '':'') (matrix ! 1)"
  let ?init = "replicate (length (matrix ! 0)) (0::int)"
  obtain lengths matrix' where n: "3 \<le> length matrix"
    and ls: "lengths_rows ?init 0 matrix = Inr lengths"
    and fr: "format_rows ?centered lengths 0 matrix = Inr matrix'"
    and t: "t = build_table matrix'"
    using reflow_Some [OF assms] by blast
  note lr = lengths_rows_result [OF ls, simplified]
  have len: "length lengths = length (matrix ! 0)"
    using lr by simp
  have nonneg: "0 \<le> lengths ! k" if "k < length lengths" for k
    using lr that len by simp
  have fits: "int (RuneCountInString (matrix ! i ! j)) \<le> lengths ! j"
    and short: "length (matrix ! i) \<le> length lengths"
    if "i < length matrix" "i \<noteq> 1" "j < length (matrix ! i)" for i j
    using lr that len by auto
  note fr' = format_rows_result [OF fr, simplified]
  have rows: "length matrix' = length matrix"
    using fr' by simp
  have cells: "length (matrix' ! i) = length (matrix ! i)
               \<and> (\<forall>j < length (matrix ! i).
                     j < length lengths
                     \<and> int (RuneCountInString (matrix' ! i ! j)) = lengths ! j + 2
                     \<and> (i \<noteq> 1 \<longrightarrow> int (RuneCountInString (matrix ! i ! j)) \<le> lengths ! j))"
    if i: "i < length matrix" for i
  proof -
    have "format_row ?centered lengths i 0 (matrix ! i) = Inr (matrix' ! i)"
      using fr' i by simp
    note c = format_row_result [OF this, simplified]
    have "j < length lengths
          \<and> int (RuneCountInString (matrix' ! i ! j)) = lengths ! j + 2
          \<and> (i \<noteq> 1 \<longrightarrow> int (RuneCountInString (matrix ! i ! j)) \<le> lengths ! j)"
      if j: "j < length (matrix ! i)" for j
    proof -
      have f: "format_cell ?centered lengths i j (matrix ! i ! j) = Inr (matrix' ! i ! j)"
        using c j by simp
      have "j < length lengths \<and> int (RuneCountInString (matrix' ! i ! j)) = lengths ! j + 2"
        using f nonneg fits [OF i _ j] by (intro format_cell_width) auto
      then show ?thesis using fits [OF i _ j] by simp
    qed
    then show ?thesis using c by simp
  qed
  have attained: "\<exists>i < length matrix. i \<noteq> 1 \<and> j < length (matrix ! i)
                    \<and> lengths ! j = int (RuneCountInString (matrix ! i ! j))"
    if j: "j < length lengths" for j
  proof -
    have "lengths ! j = 0
          \<or> (\<exists>r < length matrix. r \<noteq> 1 \<and> j < length (matrix ! r)
                \<and> lengths ! j = int (RuneCountInString (matrix ! r ! j)))"
      using lr j len by simp
    then show ?thesis
    proof
      assume z: "lengths ! j = 0"
      have "matrix \<noteq> []"
        using n by auto
      then have "int (RuneCountInString (matrix ! 0 ! j)) \<le> lengths ! j"
        using fits [of 0 j] j len by simp
      then have "lengths ! j = int (RuneCountInString (matrix ! 0 ! j))"
        using z by simp
      moreover have "0 < length matrix" "(0::nat) \<noteq> 1" "j < length (matrix ! 0)"
        using n j len by auto
      ultimately show ?thesis by blast
    next
      assume "\<exists>r < length matrix. r \<noteq> 1 \<and> j < length (matrix ! r)
                \<and> lengths ! j = int (RuneCountInString (matrix ! r ! j))"
      then show ?thesis .
    qed
  qed
  show ?thesis
    using t rows cells attained by blast
qed

theorem reflow_width_invariant_witness:
  "\<exists>matrix' lengths.
     ''|  a | bb  |\<newline>|:--:|-----|\<newline>| xy | ccc |\<newline>'' = build_table matrix'
     \<and> length matrix' = length [[''a'', ''bb''], ['':-:'', ''-''], [''xy'', ''ccc'']]
     \<and> (\<forall>i < length [[''a'', ''bb''], ['':-:'', ''-''], [''xy'', ''ccc'']].
           length (matrix' ! i) = length ([[''a'', ''bb''], ['':-:'', ''-''], [''xy'', ''ccc'']] ! i)
           \<and> (\<forall>j < length ([[''a'', ''bb''], ['':-:'', ''-''], [''xy'', ''ccc'']] ! i).
                 j < length lengths
                 \<and> int (RuneCountInString (matrix' ! i ! j)) = lengths ! j + 2
                 \<and> (i \<noteq> 1 \<longrightarrow>
                      int (RuneCountInString
                            ([[''a'', ''bb''], ['':-:'', ''-''], [''xy'', ''ccc'']] ! i ! j))
                        \<le> lengths ! j)))
     \<and> (\<forall>j < length lengths.
           \<exists>i < length [[''a'', ''bb''], ['':-:'', ''-''], [''xy'', ''ccc'']].
             i \<noteq> 1 \<and> j < length ([[''a'', ''bb''], ['':-:'', ''-''], [''xy'', ''ccc'']] ! i)
             \<and> lengths ! j
                 = int (RuneCountInString
                         ([[''a'', ''bb''], ['':-:'', ''-''], [''xy'', ''ccc'']] ! i ! j)))"
proof -
  have r: "reflow ''|a|bb|\<newline>|:-:|-|\<newline>|xy|ccc|\<newline>''
             = Inr (Some ''|  a | bb  |\<newline>|:--:|-----|\<newline>| xy | ccc |\<newline>'')"
    by code_simp
  have m: "[[''a'', ''bb''], ['':-:'', ''-''], [''xy'', ''ccc'']]
             = map parse_line (FieldsFunc ''|a|bb|\<newline>|:-:|-|\<newline>|xy|ccc|\<newline>'' CHR ''\<newline>'')"
    by code_simp
  show ?thesis
    by (rule reflow_width_invariant [OF r m])
qed

section \<open>TableReflowEngine: blocks without body rows\<close>

lemma Split_no_sep: "sep \<notin> set s \<Longrightarrow> Split s sep = [s]"
  by (induction s) auto

lemma Split_append_sep:
  "sep \<notin> set h \<Longrightarrow> Split (h @ sep # rest) sep = h # Split rest sep"
  by (induction h) auto

lemma FieldsFunc_two_lines:
  assumes "CHR ''\<newline>'' \<notin> set header" "CHR ''\<newline>'' \<notin> set separator"
    and "rawTable = header @ ''\<newline>'' @ separator
         \<or> rawTable = header @ ''\<newline>'' @ separator @ ''\<newline>''"
  shows "length (FieldsFunc rawTable CHR ''\<newline>'') < 3"
proof -
  have "Split rawTable CHR ''\<newline>'' = [header, separator]
        \<or> Split rawTable CHR ''\<newline>'' = [header, separator, []]"
    using assms Split_append_sep [of "CHR ''\<newline>''"] Split_no_sep [of "CHR ''\<newline>''"]
    by auto
  then show ?thesis
    by (auto simp: FieldsFunc_def)
qed

text \<open>
  C3 (as amended).  A block that holds a header row and a separator row and no body row is
  not reflowed: the loop body leaves it with \<open>continue\<close>, the text is not changed for
  it, and when it is the only block found \<open>Prettify\<close> only cleans the text up.
\<close>

theorem header_and_separator_only:
  assumes "CHR ''\<newline>'' \<notin> set header" "CHR ''\<newline>'' \<notin> set separator"
    and "rawTable = header @ ''\<newline>'' @ separator
         \<or> rawTable = header @ ''\<newline>'' @ separator @ ''\<newline>''"
  shows "reflow rawTable = Inr None
         \<and> tables_loop (rawTable # tables) s = tables_loop tables s
         \<and> (FindAllString table_regexp s = [rawTable] \<longrightarrow> Prettify s = Inr (cleanup s))"
proof -
  have r: "reflow rawTable = Inr None"
    using FieldsFunc_two_lines [OF assms] by (simp add: reflow_def Let_def)
  then show ?thesis
    by (simp add: Prettify_def)
qed

theorem header_and_separator_only_witness:
  "reflow ''|a|\<newline>|-|\<newline>'' = Inr None
   \<and> tables_loop [''|a|\<newline>|-|\<newline>''] ''|a|\<newline>|-|\<newline>'' = Inr ''|a|\<newline>|-|\<newline>''
   \<and> Prettify ''|a|\<newline>|-|\<newline>'' = Inr (cleanup ''|a|\<newline>|-|\<newline>'')"
proof -
  have f: "FindAllString table_regexp ''|a|\<newline>|-|\<newline>'' = [''|a|\<newline>|-|\<newline>'']"
    by code_simp
  have n: "CHR ''\<newline>'' \<notin> set ''|a|''" "CHR ''\<newline>'' \<notin> set ''|-|''"
    by simp_all
  have e: "''|a|\<newline>|-|\<newline>'' = ''|a|'' @ ''\<newline>'' @ ''|-|''
           \<or> ''|a|\<newline>|-|\<newline>'' = ''|a|'' @ ''\<newline>'' @ ''|-|'' @ ''\<newline>''"
    by simp
  show ?thesis
    using header_and_separator_only [OF n e, of "[]" "''|a|\<newline>|-|\<newline>''"] f by simp
qed

text \<open>
  The claim C3 as stated fails: the block \<open>|a|\<close>, \<open>|-|\<close> is found, and \<open>Prettify\<close>
  returns it as it is; reflowed with the width 1 of its header cell it would read
  \<open>| a |\<close>, \<open>|---|\<close>.
\<close>

theorem header_and_separator_only_counterexample:
  "FindAllString table_regexp ''|a|\<newline>|-|\<newline>'' = [''|a|\<newline>|-|\<newline>'']
   \<and> map parse_line (FieldsFunc ''|a|\<newline>|-|\<newline>'' CHR ''\<newline>'') = [[''a''], [''-'']]
   \<and> lengths_rows [0] 0 [[''a''], [''-'']] = Inr [1]
   \<and> format_rows [False] [1] 0 [[''a''], [''-'']] = Inr [['' a ''], [''---'']]
   \<and> build_table [['' a ''], [''---'']] = ''| a |\<newline>|---|\<newline>''
   \<and> Prettify ''|a|\<newline>|-|\<newline>'' = Inr ''|a|\<newline>|-|\<newline>''
   \<and> ''|a|\<newline>|-|\<newline>'' \<noteq> ''| a |\<newline>|---|\<newline>''"
  by code_simp

section \<open>TableReflowEngine: rows of different lengths\<close>

text \<open>
  C2.  \<open>Prettify\<close> is not total.  The block \<open>|a|\<close>, \<open>|-|\<close>, \<open>|x|y|\<close> is found; its
  body row has two cells and its header one, and \<open>lengths[1]\<close> is out of range.  The
  same happens to a row that ends with a carriage return, which the expression admits with
  \<open>\r?\<close>: the carriage return stops \<open>strings.Trim\<close> and becomes a cell of its own.
  A body row with fewer cells than the header does not leave the block unchanged either: the
  block is reflowed.
\<close>

theorem Prettify_panics_on_longer_row:
  "FindAllString table_regexp ''|a|\<newline>|-|\<newline>|x|y|\<newline>'' = [''|a|\<newline>|-|\<newline>|x|y|\<newline>'']
   \<and> map parse_line (FieldsFunc ''|a|\<newline>|-|\<newline>|x|y|\<newline>'' CHR ''\<newline>'')
       = [[''a''], [''-''], [''x'', ''y'']]
   \<and> Prettify ''|a|\<newline>|-|\<newline>|x|y|\<newline>'' = Inl IndexOutOfRange
   \<and> map parse_line
         (FieldsFunc (''|a|\<newline>|-|\<newline>|b|'' @ [CHR 0x0D] @ ''\<newline>'') CHR ''\<newline>'')
       = [[''a''], [''-''], [''b'', []]]
   \<and> Prettify (''|a|\<newline>|-|\<newline>|b|'' @ [CHR 0x0D] @ ''\<newline>'') = Inl IndexOutOfRange
   \<and> Prettify ''|a|b|\<newline>|-|-|\<newline>|x|\<newline>'' = Inr ''| a | b |\<newline>|---|---|\<newline>| x |\<newline>''"
  by code_simp

section \<open>TableReflowEngine: reflowing twice\<close>

text \<open>
  C6.  \<open>Prettify\<close> is not idempotent on its own output.  A cell that holds only a tab is
  rendered as spaces, and \<open>strings.Trim(line, "| ")\<close> removes a first or last cell of
  spaces together with the bars around it.  The table with the rows \<open>|\t|b|\<close>,
  \<open>|-|-|\<close>, \<open>|x|y|\<close> has two cells in every row; \<open>Prettify\<close> aligns it, and
  \<open>Prettify\<close> of the aligned table panics, because its header now has one cell.  With
  the empty cell at the end of a body row the second pass drops the cell.
\<close>

theorem Prettify_twice:
  "Prettify (''|'' @ [CHR 0x09] @ ''|b|\<newline>|-|-|\<newline>|x|y|\<newline>'')
     = Inr ''|   | b |\<newline>|---|---|\<newline>| x | y |\<newline>''
   \<and> map parse_line
         (FieldsFunc (''|'' @ [CHR 0x09] @ ''|b|\<newline>|-|-|\<newline>|x|y|\<newline>'') CHR ''\<newline>'')
       = [[[], ''b''], [''-'', ''-''], [''x'', ''y'']]
   \<and> Prettify ''|   | b |\<newline>|---|---|\<newline>| x | y |\<newline>'' = Inl IndexOutOfRange
   \<and> Prettify (''|a|b|\<newline>|-|-|\<newline>|x|'' @ [CHR 0x09] @ ''|\<newline>'')
       = Inr ''| a | b |\<newline>|---|---|\<newline>| x |   |\<newline>''
   \<and> Prettify ''| a | b |\<newline>|---|---|\<newline>| x |   |\<newline>''
       = Inr ''| a | b |\<newline>|---|---|\<newline>| x |\<newline>''"
  by code_simp

section \<open>TableReflowEngine: when a block is reflowed\<close>

lemma lengths_row_length:
  "lengths_row lengths i row = Inr lengths' \<Longrightarrow> length lengths' = length lengths"
  by (induction row arbitrary: lengths i) (auto simp: Let_def split: if_splits)

lemma lengths_row_Inr:
  "(\<exists>lengths'. lengths_row lengths i row = Inr lengths')
     \<longleftrightarrow> row = [] \<or> i + length row \<le> length lengths"
proof (induction row arbitrary: lengths i)
  case Nil
  then show ?case by simp
next
  case (Cons cell row)
  let ?l = "int (RuneCountInString cell)"
  let ?ls = "if ?l > lengths ! i then lengths[i := ?l] else lengths"
  have len: "length ?ls = length lengths"
    by simp
  show ?case
  proof (cases "i < length lengths")
    case True
    then have "lengths_row lengths i (cell # row) = lengths_row ?ls (Suc i) row"
      by (simp add: Let_def)
    then show ?thesis
      using Cons.IH [of ?ls "Suc i"] True unfolding len by auto
  next
    case False
    then show ?thesis by (simp add: Let_def)
  qed
qed

lemma all_less_Cons:
  "(\<forall>r < length (x # xs). P ((x # xs) ! r) r) \<longleftrightarrow> P x 0 \<and> (\<forall>r < length xs. P (xs ! r) (Suc r))"
  by (auto simp: less_Suc_eq_0_disj)

lemma lengths_rows_Inr:
  "(\<exists>lengths'. lengths_rows lengths n matrix = Inr lengths')
     \<longleftrightarrow> (\<forall>r < length matrix. n + r \<noteq> 1 \<longrightarrow> length (matrix ! r) \<le> length lengths)"
proof (induction matrix arbitrary: lengths n)
  case Nil
  then show ?case by simp
next
  case (Cons row matrix)
  note split = all_less_Cons [of row matrix "\<lambda>row r. n + r \<noteq> 1 \<longrightarrow> length row \<le> length lengths"]
  show ?case
  proof (cases "n = 1")
    case True
    then show ?thesis
      unfolding split using Cons.IH [of lengths "Suc n"] by simp
  next
    case False
    show ?thesis
    proof (cases "lengths_row lengths 0 row")
      case (Inl e)
      then have "\<not> (row = [] \<or> 0 + length row \<le> length lengths)"
        using lengths_row_Inr [of lengths 0 row] by auto
      then show ?thesis
        unfolding split using Inl False by simp
    next
      case (Inr mid)
      then have "row = [] \<or> 0 + length row \<le> length lengths"
        using lengths_row_Inr [of lengths 0 row] by auto
      then have a: "length row \<le> length lengths"
        by auto
      have b: "length mid = length lengths"
        using Inr by (rule lengths_row_length)
      have e: "lengths_rows lengths n (row # matrix) = lengths_rows mid (Suc n) matrix"
        using Inr False by simp
      show ?thesis
        unfolding split e Cons.IH [of mid "Suc n"] b using a by simp
    qed
  qed
qed

lemma format_cell_Inr:
  "(\<exists>cell'. format_cell centered lengths i j cell = Inr cell')
     \<longleftrightarrow> j < length lengths \<and> j < length centered"
  by (auto simp: format_cell_def Let_def split: prod.splits)

lemma format_row_Inr:
  "(\<exists>row'. format_row centered lengths i j row = Inr row')
     \<longleftrightarrow> row = [] \<or> (j + length row \<le> length lengths \<and> j + length row \<le> length centered)"
proof (induction row arbitrary: j)
  case Nil
  then show ?case by simp
next
  case (Cons cell row)
  show ?case
  proof (cases "format_cell centered lengths i j cell")
    case (Inl e)
    then have "\<not> (j < length lengths \<and> j < length centered)"
      using format_cell_Inr [of centered lengths i j cell] by auto
    then show ?thesis using Inl by auto
  next
    case (Inr cell')
    then have "j < length lengths \<and> j < length centered"
      using format_cell_Inr [of centered lengths i j cell] by auto
    then have a: "j < length lengths \<and> j < length centered"
      by simp
    have e: "(\<exists>row'. format_row centered lengths i j (cell # row) = Inr row')
               \<longleftrightarrow> (\<exists>row'. format_row centered lengths i (Suc j) row = Inr row')"
      using Inr by (cases "format_row centered lengths i (Suc j) row") simp_all
    show ?thesis
      unfolding e Cons.IH [of "Suc j"] using a by auto
  qed
qed

lemma format_rows_Inr:
  "(\<exists>matrix'. format_rows centered lengths i matrix = Inr matrix')
     \<longleftrightarrow> (\<forall>r < length matrix. length (matrix ! r) \<le> length lengths
                                  \<and> length (matrix ! r) \<le> length centered)"
proof (induction matrix arbitrary: i)
  case Nil
  then show ?case by simp
next
  case (Cons row matrix)
  note split = all_less_Cons [of row matrix
      "\<lambda>row r. length row \<le> length lengths \<and> length row \<le> length centered"]
  show ?case
  proof (cases "format_row centered lengths i 0 row")
    case (Inl e)
    then have "\<not> (row = [] \<or> (0 + length row \<le> length lengths
                                 \<and> 0 + length row \<le> length centered))"
      using format_row_Inr [of centered lengths i 0 row] by auto
    then show ?thesis unfolding split using Inl by auto
  next
    case (Inr row')
    then have "row = [] \<or> (0 + length row \<le> length lengths \<and> 0 + length row \<le> length centered)"
      using format_row_Inr [of centered lengths i 0 row] by auto
    then have a: "length row \<le> length lengths \<and> length row \<le> length centered"
      by auto
    have e: "(\<exists>matrix'. format_rows centered lengths i (row # matrix) = Inr matrix')
               \<longleftrightarrow> (\<exists>matrix'. format_rows centered lengths (Suc i) matrix = Inr matrix')"
      using Inr by (cases "format_rows centered lengths (Suc i) matrix") simp_all
    show ?thesis
      unfolding split e Cons.IH [of "Suc i"] using a by simp
  qed
qed

lemma lengths_rows_length:
  "lengths_rows lengths n matrix = Inr lengths' \<Longrightarrow> length lengths' = length lengths"
  using lengths_rows_result by blast

text \<open>
  A block of three lines or more is reflowed when no row has more cells than the header row
  or than the separator row, and \<open>reflow\<close> panics otherwise.
\<close>

theorem reflow_panics_iff:
  assumes "matrix = map parse_line (FieldsFunc rawTable CHR ''\<newline>'')"
  shows "reflow rawTable = Inl IndexOutOfRange
           \<longleftrightarrow> 3 \<le> length matrix
               \<and> (\<exists>r < length matrix. length (matrix ! 0) < length (matrix ! r)
                                      \<or> length (matrix ! 1) < length (matrix ! r))"
proof (cases "3 \<le> length matrix")
  case False
  then show ?thesis
    using assms by (simp add: reflow_def Let_def)
next
  case True
  have ll: "length (FieldsFunc rawTable CHR ''\<newline>'') = length matrix"
    using assms by simp
  let ?centered = "map (\<lambda>cell. HasPrefix cell '':'' \<and> HasSuffix cell '':'') (matrix ! 1)"
  let ?init = "replicate (length (matrix ! 0)) (0::int)"
  have r: "reflow rawTable
             = (case lengths_rows ?init 0 matrix of
                  Inl e \<Rightarrow> Inl e
                | Inr lengths \<Rightarrow>
                    (case format_rows ?centered lengths 0 matrix of
                       Inl e \<Rightarrow> Inl e
                     | Inr matrix' \<Rightarrow> Inr (Some (build_table matrix'))))"
    unfolding reflow_def Let_def assms [symmetric] ll using True by simp
  show ?thesis
  proof (cases "lengths_rows ?init 0 matrix")
    case (Inl e)
    then have "\<not> (\<forall>r < length matrix. 0 + r \<noteq> 1 \<longrightarrow> length (matrix ! r) \<le> length ?init)"
      using lengths_rows_Inr [of ?init 0 matrix] by auto
    then have "\<exists>r < length matrix. length (matrix ! 0) < length (matrix ! r)"
      by (auto simp: not_le)
    moreover have "e = IndexOutOfRange"
      by (cases e) simp
    ultimately show ?thesis
      using r Inl True by auto
  next
    case (Inr lengths)
    then have fit: "\<forall>r < length matrix. 0 + r \<noteq> 1 \<longrightarrow> length (matrix ! r) \<le> length ?init"
      using lengths_rows_Inr [of ?init 0 matrix] by blast
    have len: "length lengths = length (matrix ! 0)"
      using lengths_rows_length [OF Inr] by simp
    show ?thesis
    proof (cases "format_rows ?centered lengths 0 matrix")
      case (Inl e)
      then have "\<not> (\<forall>r < length matrix. length (matrix ! r) \<le> length lengths
                                          \<and> length (matrix ! r) \<le> length ?centered)"
        using format_rows_Inr [of ?centered lengths 0 matrix] by auto
      then have "\<exists>r < length matrix. length (matrix ! 0) < length (matrix ! r)
                                     \<or> length (matrix ! 1) < length (matrix ! r)"
        unfolding len by (auto simp: not_le)
      moreover have "e = IndexOutOfRange"
        by (cases e) simp
      ultimately show ?thesis
        using r Inr Inl True by auto
    next
      case ok: (Inr matrix')
      then have "\<forall>r < length matrix. length (matrix ! r) \<le> length lengths
                                     \<and> length (matrix ! r) \<le> length ?centered"
        using format_rows_Inr [of ?centered lengths 0 matrix] by blast
      then have "\<not> (\<exists>r < length matrix. length (matrix ! 0) < length (matrix ! r)
                                        \<or> length (matrix ! 1) < length (matrix ! r))"
        unfolding len by (auto simp: not_le)
      then show ?thesis
        using r Inr ok by auto
    qed
  qed
qed

theorem reflow_panics_iff_witness:
  "reflow ''|a|\<newline>|-|\<newline>|x|y|\<newline>'' = Inl IndexOutOfRange
   \<and> (3::nat) \<le> length [[''a''], [''-''], [''x'', ''y'']]"
proof -
  have m: "[[''a''], [''-''], [''x'', ''y'']]
             = map parse_line (FieldsFunc ''|a|\<newline>|-|\<newline>|x|y|\<newline>'' CHR ''\<newline>'')"
    by code_simp
  have "\<exists>r < length [[''a''], [''-''], [''x'', ''y'']].
          length ([[''a''], [''-''], [''x'', ''y'']] ! 0) < length ([[''a''], [''-''], [''x'', ''y'']] ! r)
          \<or> length ([[''a''], [''-''], [''x'', ''y'']] ! 1) < length ([[''a''], [''-''], [''x'', ''y'']] ! r)"
    by (intro exI [of _ 2]) simp
  then show ?thesis
    using reflow_panics_iff [OF m] by simp
qed

section \<open>TableReflowEngine: a reflowed block is reflowed to itself\<close>

lemma Split_not_Nil: "Split s sep \<noteq> []"
  by (induction s) (auto split: list.splits)

lemma Split_fields: "f \<in> set (Split s sep) \<Longrightarrow> sep \<notin> set f \<and> set f \<subseteq> set s"
proof (induction s arbitrary: f)
  case Nil
  then show ?case by simp
next
  case (Cons c s)
  show ?case
  proof (cases "c = sep")
    case True
    then show ?thesis using Cons by auto
  next
    case False
    obtain g gs where g: "Split s sep = g # gs"
      using Split_not_Nil [of s sep] by (cases "Split s sep") auto
    then have "f = c # g \<or> f \<in> set gs"
      using Cons.prems False by simp
    then show ?thesis
      using Cons.IH [of g] Cons.IH [of f] g False by auto
  qed
qed

lemma set_Trim: "set (Trim s cutset) \<subseteq> set s"
proof -
  have "set (dropWhile P xs) \<subseteq> set xs" for P and xs :: string
    by (metis set_dropWhileD subsetI)
  then show ?thesis
    unfolding Trim_def TrimLeft_def TrimRight_def
    by (metis set_rev subset_trans)
qed

lemma set_TrimSpace: "set (TrimSpace s) \<subseteq> set s"
proof -
  obtain pre post where "s = pre @ TrimSpace s @ post"
    using TrimSpace_infix by blast
  then have "set s = set pre \<union> set (TrimSpace s) \<union> set post"
    by (metis set_append Un_assoc)
  then show ?thesis by blast
qed

lemma TrimLeftSpace_id: "\<not> IsSpace (fst (DecodeRuneInString s)) \<Longrightarrow> TrimLeftSpace s = s"
  by (cases s) (simp_all del: DecodeRuneInString.simps)

lemma TrimRightSpace_idem: "TrimRightSpace (TrimRightSpace s) = TrimRightSpace s"
proof (induction s rule: TrimRightSpace.induct)
  case (1 s)
  show ?case
  proof (cases "s \<noteq> [] \<and> IsSpace (fst (DecodeLastRuneInString s))")
    case True
    then have "TrimRightSpace s
                 = TrimRightSpace (take (length s - snd (DecodeLastRuneInString s)) (butlast s))"
      by (subst TrimRightSpace.simps) simp
    then show ?thesis using 1 True by simp
  next
    case False
    then have "TrimRightSpace s = s"
      by (subst TrimRightSpace.simps) auto
    then show ?thesis by simp
  qed
qed

lemma TrimSpace_idem: "TrimSpace (TrimSpace s) = TrimSpace s"
proof -
  have "TrimLeftSpace (TrimSpace s) = TrimSpace s"
    using TrimSpace_first by (rule TrimLeftSpace_id)
  then show ?thesis
    by (simp add: TrimSpace_def TrimRightSpace_idem)
qed

text \<open>A text that \<open>TrimSpace\<close> leaves as it is neither starts nor ends with a space.\<close>

lemma TrimSpace_fixed_hd:
  assumes "TrimSpace c = c" "c \<noteq> []"
  shows "hd c \<noteq> CHR '' ''"
proof
  assume "hd c = CHR '' ''"
  then obtain t where "c = CHR '' '' # t"
    using assms(2) by (cases c) auto
  then have "IsSpace (fst (DecodeRuneInString c))"
    by (simp add: RuneSelf_def byte_def IsSpace_def)
  then show False
    using TrimSpace_first [of c] assms(1) by simp
qed

lemma TrimRightSpace_length: "length (TrimRightSpace s) \<le> length s"
proof -
  obtain post where "s = TrimRightSpace s @ post"
    using TrimRightSpace_prefix by blast
  then have "length s = length (TrimRightSpace s) + length post"
    by (metis length_append)
  then show ?thesis by simp
qed

lemma TrimRightSpace_fixed_last:
  assumes "TrimRightSpace c = c" "c \<noteq> []"
  shows "last c \<noteq> CHR '' ''"
proof
  assume l: "last c = CHR '' ''"
  then have d: "DecodeLastRuneInString c = (0x20, 1)"
    using assms(2) by (simp add: DecodeLastRuneInString_def RuneSelf_def byte_def)
  then have "TrimRightSpace c = TrimRightSpace (take (length c - 1) (butlast c))"
    using assms(2) by (subst TrimRightSpace.simps) (simp add: IsSpace_def)
  then have "length (TrimRightSpace c) \<le> length (take (length c - 1) (butlast c))"
    using TrimRightSpace_length by metis
  also have "\<dots> < length c"
    using assms(2) by (cases c) simp_all
  finally show False using assms(1) by simp
qed

lemma TrimSpace_fixed_last:
  assumes "TrimSpace c = c" "c \<noteq> []"
  shows "last c \<noteq> CHR '' ''"
proof -
  have "TrimRightSpace c = c"
    using assms(1) TrimRightSpace_idem [of "TrimLeftSpace c"] by (simp add: TrimSpace_def)
  then show ?thesis using assms(2) by (rule TrimRightSpace_fixed_last)
qed

text \<open>The cells of a parsed line hold no bar and no white space at their ends.\<close>

lemma parse_line_cells:
  assumes "c \<in> set (parse_line line)"
  shows "CHR ''|'' \<notin> set c" "set c \<subseteq> set line" "TrimSpace c = c"
proof -
  obtain f where f: "f \<in> set (Split (Trim line ''| '') CHR ''|'')" and c: "c = TrimSpace f"
    using assms by (auto simp: parse_line_def FieldsFunc_def)
  have "CHR ''|'' \<notin> set f" "set f \<subseteq> set line"
    using Split_fields [OF f] set_Trim [of line "''| ''"] by auto
  then show "CHR ''|'' \<notin> set c" "set c \<subseteq> set line"
    using set_TrimSpace [of f] c by auto
  show "TrimSpace c = c"
    unfolding c by (rule TrimSpace_idem)
qed

lemma FieldsFunc_fields: "f \<in> set (FieldsFunc s sep) \<Longrightarrow> sep \<notin> set f \<and> f \<noteq> []"
  using Split_fields [of f s sep] by (auto simp: FieldsFunc_def)

lemma Trim_peel:
  assumes "set a \<subseteq> set cutset" "set b \<subseteq> set cutset"
    and "M \<noteq> [] \<Longrightarrow> hd M \<notin> set cutset \<and> last M \<notin> set cutset"
  shows "Trim (a @ M @ b) cutset = M"
proof (cases "M = []")
  case True
  have d: "dropWhile (\<lambda>c. c \<in> set cutset) (a @ b) = []"
    using assms(1,2) by (auto simp: dropWhile_eq_Nil_conv)
  show ?thesis
    unfolding Trim_def TrimLeft_def TrimRight_def True append_Nil d by simp
next
  case False
  let ?P = "\<lambda>c. c \<in> set cutset"
  obtain x xs where m: "M = x # xs"
    using False by (cases M) auto
  have "dropWhile ?P (a @ M @ b) = dropWhile ?P (M @ b)"
    using assms(1) by (intro dropWhile_append2) auto
  also have "\<dots> = M @ b"
    using assms(3) [OF False] m by simp
  finally have l: "TrimLeft (a @ M @ b) cutset = M @ b"
    by (simp add: TrimLeft_def)
  obtain y ys where r: "rev M = y # ys"
    using False by (cases "rev M") auto
  then have "y = last M"
    by (metis False last_rev list.sel(1) rev_rev_ident hd_rev)
  then have ny: "\<not> ?P y"
    using assms(3) [OF False] by simp
  have "dropWhile ?P (rev (M @ b)) = dropWhile ?P (rev b @ rev M)"
    by simp
  also have "\<dots> = dropWhile ?P (rev M)"
    using assms(2) by (intro dropWhile_append2) auto
  also have "\<dots> = rev M"
    using r ny by simp
  finally show ?thesis
    using l by (simp add: Trim_def TrimRight_def)
qed

lemma Join_append:
  "xs \<noteq> [] \<Longrightarrow> ys \<noteq> [] \<Longrightarrow> Join (xs @ ys) sep = Join xs sep @ sep @ Join ys sep"
proof (induction xs)
  case Nil
  then show ?case by simp
next
  case (Cons x xs)
  obtain y ys' where y: "ys = y # ys'"
    using Cons.prems(2) by (cases ys) auto
  show ?case
  proof (cases xs)
    case Nil
    then show ?thesis using y by simp
  next
    case (Cons x' xs')
    then have "Join ((x # xs) @ ys) sep = x @ sep @ Join (xs @ ys) sep"
      by simp
    moreover have "Join (x # xs) sep = x @ sep @ Join xs sep"
      using Cons by simp
    ultimately show ?thesis
      using Cons.IH Cons.prems(2) Cons by simp
  qed
qed

lemma Split_Join:
  "xs \<noteq> [] \<Longrightarrow> \<forall>x \<in> set xs. sep \<notin> set x \<Longrightarrow> Split (Join xs [sep]) sep = xs"
proof (induction xs)
  case Nil
  then show ?case by simp
next
  case (Cons x xs)
  show ?case
  proof (cases xs)
    case Nil
    then show ?thesis using Cons.prems by (simp add: Split_no_sep)
  next
    case (Cons x' xs')
    then have "Join (x # xs) [sep] = x @ sep # Join xs [sep]"
      by simp
    then show ?thesis
      using Cons.IH Cons.prems Cons Split_append_sep [of sep x "Join xs [sep]"] by simp
  qed
qed

lemma hd_Join: "x \<noteq> [] \<Longrightarrow> hd (Join (x # xs) sep) = hd x"
  by (cases xs) simp_all

lemma last_Join_snoc: "x \<noteq> [] \<Longrightarrow> last (Join (xs @ [x]) sep) = last x"
proof (cases xs)
  case Nil
  then show ?thesis by simp
next
  case (Cons y ys)
  assume "x \<noteq> []"
  then show ?thesis
    using Join_append [of xs "[x]" sep] Cons by simp
qed

lemma padded_TrimSpace: "padded p c \<Longrightarrow> TrimSpace p = TrimSpace c"
proof -
  assume "padded p c"
  then obtain l r where "set l \<subseteq> {CHR '' ''}" "set r \<subseteq> {CHR '' ''}" "p = l @ c @ r"
    unfolding padded_def by blast
  then show ?thesis
    using TrimSpace_padding [of l r c] by (auto simp: white_def)
qed

lemma padded_no_bar: "padded p c \<Longrightarrow> x \<notin> set c \<Longrightarrow> x \<noteq> CHR '' '' \<Longrightarrow> x \<notin> set p"
  unfolding padded_def by auto

lemma padded_cells:
  assumes "list_all2 padded ps cs"
    and "\<And>c. c \<in> set cs \<Longrightarrow> CHR ''|'' \<notin> set c \<and> TrimSpace c = c"
  shows "map TrimSpace ps = cs \<and> (\<forall>p \<in> set ps. CHR ''|'' \<notin> set p \<and> p \<noteq> [])"
  using assms
proof (induction rule: list_all2_induct)
  case Nil
  then show ?case by simp
next
  case (Cons p ps c cs)
  have "TrimSpace p = c"
    using padded_TrimSpace [OF Cons.hyps(1)] Cons.prems [of c] by simp
  moreover have "CHR ''|'' \<notin> set p"
    using padded_no_bar [OF Cons.hyps(1), of "CHR ''|''"] Cons.prems [of c] by simp
  moreover have "p \<noteq> []"
    using Cons.hyps(1) unfolding padded_def by blast
  ultimately show ?case
    using Cons.IH Cons.prems by simp
qed

lemma fixed_cell_ends:
  assumes "CHR ''|'' \<notin> set c" "TrimSpace c = c" "c \<noteq> []"
  shows "hd c \<notin> set ''| ''" "last c \<notin> set ''| ''"
proof -
  have "hd c \<in> set c" "last c \<in> set c"
    using assms(3) by simp_all
  then have "hd c \<noteq> CHR ''|''" "last c \<noteq> CHR ''|''"
    using assms(1) by metis+
  then show "hd c \<notin> set ''| ''" "last c \<notin> set ''| ''"
    using TrimSpace_fixed_hd [OF assms(2,3)] TrimSpace_fixed_last [OF assms(2,3)] by simp_all
qed

text \<open>
  Parsing a rendered row gives the contents back, when the first and the last content are
  not empty.
\<close>

lemma parse_rendered_line:
  assumes "list_all2 padded row' tgt"
    and "\<And>c. c \<in> set tgt \<Longrightarrow> CHR ''|'' \<notin> set c \<and> TrimSpace c = c"
    and "tgt \<noteq> [] \<Longrightarrow> hd tgt \<noteq> [] \<and> last tgt \<noteq> []"
  shows "parse_line (''|'' @ Join row' ''|'' @ ''|'') = tgt"
proof (cases tgt)
  case Nil
  then have "row' = []"
    using assms(1) by simp
  then show ?thesis
    using Nil by (simp add: parse_line_def Trim_def TrimLeft_def TrimRight_def FieldsFunc_def)
next
  case (Cons c1 rest)
  then obtain p1 rest' where row': "row' = p1 # rest'" and p1: "padded p1 c1"
    and rest': "list_all2 padded rest' rest"
    using assms(1) by (auto simp: list_all2_Cons2)
  obtain l1 r1 where l1: "set l1 \<subseteq> {CHR '' ''}" and r1: "set r1 \<subseteq> {CHR '' ''}"
    and p1e: "p1 = l1 @ c1 @ r1"
    using p1 unfolding padded_def by blast
  have c1: "CHR ''|'' \<notin> set c1" "TrimSpace c1 = c1" "c1 \<noteq> []"
    using assms(2) [of c1] assms(3) Cons by simp_all
  show ?thesis
  proof (cases rest)
    case Nil
    then have e: "row' = [p1]"
      using rest' row' by simp
    have "Trim ((''|'' @ l1) @ c1 @ (r1 @ ''|'')) ''| '' = c1"
      using l1 r1 fixed_cell_ends [OF c1] by (intro Trim_peel) auto
    then have "Trim (''|'' @ Join row' ''|'' @ ''|'') ''| '' = c1"
      unfolding e p1e by simp
    then show ?thesis
      using c1 Nil Cons by (simp add: parse_line_def FieldsFunc_def Split_no_sep)
  next
    case rest_Cons: (Cons c2 rest2)
    then obtain tmid cn where tm: "rest = tmid @ [cn]"
      by (metis list.distinct(1) rev_exhaust)
    then obtain mid pn where rm: "rest' = mid @ [pn]" and mid: "list_all2 padded mid tmid"
      and pn: "padded pn cn"
      using rest' by (auto simp: list_all2_append2 list_all2_Cons2)
    obtain ln rn where ln: "set ln \<subseteq> {CHR '' ''}" and rn: "set rn \<subseteq> {CHR '' ''}"
      and pne: "pn = ln @ cn @ rn"
      using pn unfolding padded_def by blast
    have cn: "CHR ''|'' \<notin> set cn" "TrimSpace cn = cn" "cn \<noteq> []"
      using assms(2) [of cn] assms(3) Cons tm by simp_all
    have tmid: "\<And>c. c \<in> set tmid \<Longrightarrow> CHR ''|'' \<notin> set c \<and> TrimSpace c = c"
      using assms(2) Cons tm by simp
    note pm = padded_cells [OF mid tmid]
    let ?rowM = "((c1 @ r1) # mid) @ [ln @ cn]"
    have j1: "Join row' ''|'' = (p1 @ concat (map (\<lambda>x. ''|'' @ x) mid)) @ ''|'' @ pn"
      unfolding row' rm using Join_append [of "p1 # mid" "[pn]" "''|''"]
      by (simp add: Join_Cons)
    have j2: "Join ?rowM ''|''
                = ((c1 @ r1) @ concat (map (\<lambda>x. ''|'' @ x) mid)) @ ''|'' @ ln @ cn"
      using Join_append [of "(c1 @ r1) # mid" "[ln @ cn]" "''|''"]
      by (simp add: Join_Cons)
    have x: "''|'' @ Join row' ''|'' @ ''|'' = (''|'' @ l1) @ Join ?rowM ''|'' @ (rn @ ''|'')"
      unfolding j1 j2 p1e pne by simp
    have h: "hd (Join ?rowM ''|'') = hd c1"
      using hd_Join [of "c1 @ r1" "mid @ [ln @ cn]" "''|''"] c1(3) by simp
    have l: "last (Join ?rowM ''|'') = last cn"
      using last_Join_snoc [of "ln @ cn" "(c1 @ r1) # mid" "''|''"] cn(3) by simp
    have "Trim ((''|'' @ l1) @ Join ?rowM ''|'' @ (rn @ ''|'')) ''| '' = Join ?rowM ''|''"
      using l1 rn fixed_cell_ends [OF c1] fixed_cell_ends [OF cn] h l
      by (intro Trim_peel) auto
    then have t: "Trim (''|'' @ Join row' ''|'' @ ''|'') ''| '' = Join ?rowM ''|''"
      unfolding x .
    have nobar: "\<forall>x \<in> set ?rowM. CHR ''|'' \<notin> set x"
      using c1(1) cn(1) r1 ln pm by auto
    have nonempty: "\<forall>x \<in> set ?rowM. x \<noteq> []"
      using c1(3) cn(3) pm by auto
    have "Split (Join ?rowM ''|'') CHR ''|'' = ?rowM"
      using nobar by (intro Split_Join) simp_all
    then have f: "FieldsFunc (Join ?rowM ''|'') CHR ''|'' = ?rowM"
      unfolding FieldsFunc_def using nonempty by (simp only: filter_True)
    have "TrimSpace (c1 @ r1) = c1"
      using TrimSpace_padding [of "[]" r1 c1] r1 c1(2) by (auto simp: white_def)
    moreover have "TrimSpace (ln @ cn) = cn"
      using TrimSpace_padding [of ln "[]" cn] ln cn(2) by (auto simp: white_def)
    ultimately have "map TrimSpace ?rowM = c1 # tmid @ [cn]"
      using pm by simp
    then show ?thesis
      unfolding parse_line_def t f using Cons tm by simp
  qed
qed

lemma format_cell_padded:
  assumes "format_cell centered lengths i j cell = Inr cell'" "i \<noteq> 1"
    and "int (RuneCountInString cell) \<le> lengths ! j"
  shows "padded cell' cell"
proof -
  have j: "j < length lengths" "j < length centered"
    using assms(1) format_cell_Inr [of centered lengths i j cell] by auto
  let ?d = "lengths ! j - int (RuneCountInString cell)"
  have d: "0 \<le> ?d"
    using assms(3) by simp
  have "\<exists>l r. 1 \<le> l \<and> 1 \<le> r \<and> cell' = Repeat '' '' l @ cell @ Repeat '' '' r"
  proof (cases "centered ! j")
    case True
    let ?l = "if ?d = 1 then 2 else (?d + 2) div 2"
    let ?r = "if ?d = 1 then 1 else (?d + 2) - (?d + 2) div 2"
    have "cell' = Repeat '' '' ?l @ cell @ Repeat '' '' ?r"
      using format_cell_centered [OF assms(2) j True refl d] assms(1) by simp
    moreover have "1 \<le> ?l" "1 \<le> ?r"
      using d by auto
    ultimately show ?thesis by blast
  next
    case False
    have "cell' = Repeat '' '' 1 @ cell @ Repeat '' '' (?d + 1)"
      using format_cell_left [OF assms(2) j False refl d] assms(1) by simp
    moreover have "(1::int) \<le> 1" "1 \<le> ?d + 1"
      using d by auto
    ultimately show ?thesis by blast
  qed
  then obtain l r where "1 \<le> l" "1 \<le> r" "cell' = Repeat '' '' l @ cell @ Repeat '' '' r"
    by blast
  then have "set (replicate (nat l) CHR '' '') \<subseteq> {CHR '' ''}"
    "set (replicate (nat r) CHR '' '') \<subseteq> {CHR '' ''}"
    "cell' = replicate (nat l) CHR '' '' @ cell @ replicate (nat r) CHR '' ''"
    "cell' \<noteq> []"
    by (auto simp: Repeat_byte)
  then show ?thesis
    unfolding padded_def by blast
qed

text \<open>The cells of the new separator row.\<close>

lemma format_cell_separator:
  assumes "format_cell centered lengths 1 j cell = Inr cell'" "0 \<le> lengths ! j"
  shows "cell' = (if centered ! j then '':'' @ replicate (nat (lengths ! j)) CHR ''-'' @ '':''
                  else replicate (nat (lengths ! j + 2)) CHR ''-'')"
proof -
  have j: "j < length lengths" "j < length centered"
    using assms(1) format_cell_Inr [of centered lengths 1 j cell] by auto
  then show ?thesis
    using assms by (auto simp: format_cell_def Repeat_byte)
qed

lemma TrimSpace_plain:
  assumes "s \<noteq> []" "hd s \<in> {CHR ''-'', CHR '':''}" "last s \<in> {CHR ''-'', CHR '':''}"
  shows "TrimSpace s = s"
proof -
  obtain c t where s: "s = c # t"
    using assms(1) by (cases s) auto
  then have "\<not> IsSpace (fst (DecodeRuneInString s))"
    using assms(2) by (auto simp: RuneSelf_def byte_def IsSpace_def)
  then have l: "TrimLeftSpace s = s"
    by (rule TrimLeftSpace_id)
  have "DecodeLastRuneInString s = (byte (last s), 1)"
    using assms(1,3) by (auto simp: DecodeLastRuneInString_def RuneSelf_def byte_def)
  moreover have "\<not> IsSpace (byte (last s))"
    using assms(3) by (auto simp: byte_def IsSpace_def)
  ultimately have "TrimRightSpace s = s"
    by (subst TrimRightSpace.simps) simp
  then show ?thesis
    using l by (simp add: TrimSpace_def)
qed

lemma separator_cell:
  assumes "0 \<le> n"
    and "cell' = (if ctr then '':'' @ replicate (nat n) CHR ''-'' @ '':''
                  else replicate (nat (n + 2)) CHR ''-'')"
  shows "padded cell' cell'" "CHR ''|'' \<notin> set cell'" "CHR ''\<newline>'' \<notin> set cell'"
    "TrimSpace cell' = cell'" "cell' \<noteq> []"
    "(HasPrefix cell' '':'' \<and> HasSuffix cell' '':'') = ctr"
proof -
  have m: "nat (n + 2) = Suc (Suc (nat n))"
    using assms(1) by simp
  show ne: "cell' \<noteq> []"
    using assms(2) m by auto
  have "cell' = [] @ cell' @ []"
    by simp
  then show "padded cell' cell'"
    unfolding padded_def using ne by (metis empty_set empty_subsetI)
  show "CHR ''|'' \<notin> set cell'" "CHR ''\<newline>'' \<notin> set cell'"
    using assms(2) by (auto split: if_splits)
  have "hd cell' \<in> {CHR ''-'', CHR '':''}" "last cell' \<in> {CHR ''-'', CHR '':''}"
    using assms(2) m by auto
  then show "TrimSpace cell' = cell'"
    using ne by (intro TrimSpace_plain)
  show "(HasPrefix cell' '':'' \<and> HasSuffix cell' '':'') = ctr"
    using assms(2) m by (auto simp: HasPrefix_def HasSuffix_def)
qed

lemma set_Join: "set (Join xs sep) \<subseteq> (\<Union>x \<in> set xs. set x) \<union> set sep"
  by (induction xs sep rule: Join.induct) auto

lemma FieldsFunc_lines:
  assumes "\<forall>l \<in> set ls. sep \<notin> set l \<and> l \<noteq> []"
  shows "FieldsFunc (concat (map (\<lambda>l. l @ [sep]) ls)) sep = ls"
  using assms
proof (induction ls)
  case Nil
  then show ?case by (simp add: FieldsFunc_def)
next
  case (Cons l ls)
  then have "Split (l @ sep # concat (map (\<lambda>l. l @ [sep]) ls)) sep
               = l # Split (concat (map (\<lambda>l. l @ [sep]) ls)) sep"
    by (intro Split_append_sep) simp
  then show ?case
    using Cons by (simp add: FieldsFunc_def)
qed

lemma FieldsFunc_build_table:
  assumes "\<forall>row \<in> set matrix'. \<forall>p \<in> set row. CHR ''\<newline>'' \<notin> set p"
  shows "FieldsFunc (build_table matrix') CHR ''\<newline>''
           = map (\<lambda>row. ''|'' @ Join row ''|'' @ ''|'') matrix'"
proof -
  let ?line = "\<lambda>row. ''|'' @ Join row ''|'' @ ''|''"
  have b: "build_table matrix' = concat (map (\<lambda>l. l @ [CHR ''\<newline>'']) (map ?line matrix'))"
    by (simp add: build_table_def comp_def)
  have "CHR ''\<newline>'' \<notin> set (?line row) \<and> ?line row \<noteq> []" if "row \<in> set matrix'" for row
  proof -
    have "CHR ''\<newline>'' \<notin> set (Join row ''|'')"
      using set_Join [of row "''|''"] assms that by auto
    then show ?thesis by simp
  qed
  then have "\<forall>l \<in> set (map ?line matrix'). CHR ''\<newline>'' \<notin> set l \<and> l \<noteq> []"
    by auto
  then show ?thesis
    unfolding b by (rule FieldsFunc_lines)
qed

lemma lengths_rows_update:
  "n + k = 1 \<Longrightarrow> lengths_rows lengths n (matrix[k := x]) = lengths_rows lengths n matrix"
proof (induction matrix arbitrary: lengths n k)
  case Nil
  then show ?case by simp
next
  case (Cons row matrix)
  show ?case
  proof (cases k)
    case 0
    then show ?thesis using Cons.prems by simp
  next
    case (Suc k')
    then have "n = 0" "k' = 0"
      using Cons.prems by simp_all
    then show ?thesis
      using Suc Cons.IH [of 1 0] by (simp split: sum.splits)
  qed
qed

lemma format_row_separator:
  "length x = length y \<Longrightarrow>
     format_row centered lengths 1 j x = format_row centered lengths 1 j y"
proof (induction x arbitrary: y j)
  case Nil
  then show ?case by simp
next
  case (Cons a x)
  then obtain b y' where y: "y = b # y'" "length x = length y'"
    by (cases y) auto
  have e1: "format_cell centered lengths 1 j a = format_cell centered lengths 1 j b"
    by (simp add: format_cell_def)
  have e2: "format_row centered lengths 1 (Suc j) x = format_row centered lengths 1 (Suc j) y'"
    by (rule Cons.IH [OF y(2)])
  show ?case
    by (simp only: y(1) format_row.simps e1 e2)
qed

lemma format_rows_update:
  "i + k = 1 \<Longrightarrow> k < length matrix \<Longrightarrow> length x = length (matrix ! k) \<Longrightarrow>
     format_rows centered lengths i (matrix[k := x]) = format_rows centered lengths i matrix"
proof (induction matrix arbitrary: i k)
  case Nil
  then show ?case by simp
next
  case (Cons row matrix)
  show ?case
  proof (cases k)
    case 0
    then have "i = 1" "length x = length row"
      using Cons.prems by simp_all
    then show ?thesis
      using 0 format_row_separator [of x row centered lengths 0] by simp
  next
    case (Suc k')
    then have ik: "i = 0" "k' = 0"
      using Cons.prems by simp_all
    have "format_rows centered lengths (Suc 0) (matrix[0 := x])
            = format_rows centered lengths (Suc 0) matrix"
      using Cons.IH [of "Suc 0" 0] Cons.prems Suc ik by simp
    then show ?thesis
      unfolding Suc ik by (simp only: list_update_code format_rows.simps)
  qed
qed

text \<open>
  A block that \<open>reflow\<close> has rewritten is rewritten to itself, when in every row of the
  parsed block but the separator row the first and the last cell are not empty.
\<close>

theorem reflow_again:
  assumes "reflow rawTable = Inr (Some t)"
    and "matrix = map parse_line (FieldsFunc rawTable CHR ''\<newline>'')"
    and "\<forall>i < length matrix. i \<noteq> 1 \<longrightarrow> matrix ! i \<noteq> [] \<longrightarrow>
           hd (matrix ! i) \<noteq> [] \<and> last (matrix ! i) \<noteq> []"
  shows "reflow t = Inr (Some t)"
proof -
  let ?isC = "\<lambda>cell. HasPrefix cell '':'' \<and> HasSuffix cell '':''"
  let ?centered = "map ?isC (matrix ! 1)"
  let ?init = "replicate (length (matrix ! 0)) (0::int)"
  let ?line = "\<lambda>row. ''|'' @ Join row ''|'' @ ''|''"
  obtain lengths matrix' where n: "3 \<le> length matrix"
    and ls: "lengths_rows ?init 0 matrix = Inr lengths"
    and fr: "format_rows ?centered lengths 0 matrix = Inr matrix'"
    and t: "t = build_table matrix'"
    using reflow_Some [OF assms(1,2)] by blast
  note lr = lengths_rows_result [OF ls, simplified]
  have len: "length lengths = length (matrix ! 0)"
    using lr by simp
  have nonneg: "0 \<le> lengths ! k" if "k < length lengths" for k
    using lr that len by simp
  have fits: "int (RuneCountInString (matrix ! i ! j)) \<le> lengths ! j"
    if "i < length matrix" "i \<noteq> 1" "j < length (matrix ! i)" for i j
    using lr that len by auto
  note fr' = format_rows_result [OF fr, simplified]
  have rows: "length matrix' = length matrix"
    using fr' by simp
  have row: "format_row ?centered lengths i 0 (matrix ! i) = Inr (matrix' ! i)"
    if "i < length matrix" for i
    using fr' that by simp
  have cells: "length (matrix' ! i) = length (matrix ! i)"
    and cell: "\<And>j. j < length (matrix ! i) \<Longrightarrow>
                 format_cell ?centered lengths i j (matrix ! i ! j) = Inr (matrix' ! i ! j)"
    if "i < length matrix" for i
    using format_row_result [OF row [OF that]] by simp_all
  have one: "1 < length matrix"
    using n by simp
  have lines: "FieldsFunc rawTable CHR ''\<newline>'' ! i \<in> set (FieldsFunc rawTable CHR ''\<newline>'')"
    if "i < length matrix" for i
    using that assms(2) by simp
  have parsed: "CHR ''|'' \<notin> set c \<and> CHR ''\<newline>'' \<notin> set c \<and> TrimSpace c = c"
    if "i < length matrix" "c \<in> set (matrix ! i)" for i c
  proof -
    let ?l = "FieldsFunc rawTable CHR ''\<newline>'' ! i"
    have "c \<in> set (parse_line ?l)"
      using that assms(2) by simp
    then have "CHR ''|'' \<notin> set c" "set c \<subseteq> set ?l" "TrimSpace c = c"
      by (rule parse_line_cells)+
    moreover have "CHR ''\<newline>'' \<notin> set ?l"
      using FieldsFunc_fields [OF lines [OF that(1)]] by simp
    ultimately show ?thesis by auto
  qed
  have sep: "matrix' ! 1 ! j
               = (if ?centered ! j then '':'' @ replicate (nat (lengths ! j)) CHR ''-'' @ '':''
                  else replicate (nat (lengths ! j + 2)) CHR ''-'')"
    and sepj: "j < length lengths"
    if "j < length (matrix ! 1)" for j
  proof -
    have f: "format_cell ?centered lengths 1 j (matrix ! 1 ! j) = Inr (matrix' ! 1 ! j)"
      using cell [OF one that] .
    then show j: "j < length lengths"
      using format_cell_Inr [of ?centered lengths 1 j "matrix ! 1 ! j"] by auto
    show "matrix' ! 1 ! j
               = (if ?centered ! j then '':'' @ replicate (nat (lengths ! j)) CHR ''-'' @ '':''
                  else replicate (nat (lengths ! j + 2)) CHR ''-'')"
      using f nonneg [OF j] by (rule format_cell_separator)
  qed
  let ?tgt = "matrix[1 := matrix' ! 1]"
  have tgt_len: "length ?tgt = length matrix"
    by simp
  have pad: "list_all2 padded (matrix' ! i) (?tgt ! i)" if i: "i < length matrix" for i
  proof (cases "i = 1")
    case True
    have "padded (matrix' ! 1 ! j) (matrix' ! 1 ! j)" if "j < length (matrix' ! 1)" for j
      using separator_cell(1) [OF nonneg [OF sepj] sep] that cells [OF one] by simp
    then show ?thesis
      using True one by (simp add: list_all2_conv_all_nth)
  next
    case False
    have "padded (matrix' ! i ! j) (matrix ! i ! j)" if "j < length (matrix ! i)" for j
      using format_cell_padded [OF cell [OF i that] False fits [OF i False that]] .
    then show ?thesis
      using False cells [OF i] by (simp add: list_all2_conv_all_nth)
  qed
  have fixed: "CHR ''|'' \<notin> set c \<and> TrimSpace c = c"
    and nonl: "CHR ''\<newline>'' \<notin> set c"
    if i: "i < length matrix" and c: "c \<in> set (?tgt ! i)" for i c
  proof -
    have "CHR ''|'' \<notin> set c \<and> CHR ''\<newline>'' \<notin> set c \<and> TrimSpace c = c"
    proof (cases "i = 1")
      case True
      then have "c \<in> set (matrix' ! 1)"
        using c one by simp
      then obtain j where "j < length (matrix' ! 1)" and cj: "c = matrix' ! 1 ! j"
        unfolding in_set_conv_nth by blast
      then have j: "j < length (matrix ! 1)"
        using cells [OF one] by simp
      show ?thesis
        using separator_cell(2,3,4) [OF nonneg [OF sepj [OF j]] sep [OF j]] cj by simp
    next
      case False
      then show ?thesis
        using parsed [OF i] c by simp
    qed
    then show "CHR ''|'' \<notin> set c \<and> TrimSpace c = c" "CHR ''\<newline>'' \<notin> set c"
      by simp_all
  qed
  have edges: "hd (?tgt ! i) \<noteq> [] \<and> last (?tgt ! i) \<noteq> []"
    if i: "i < length matrix" and ne: "?tgt ! i \<noteq> []" for i
  proof (cases "i = 1")
    case True
    have t1: "?tgt ! i = matrix' ! 1"
      using True one by simp
    have ne': "matrix' ! 1 \<noteq> []"
      using ne unfolding t1 .
    have "c \<noteq> []" if c: "c \<in> set (matrix' ! 1)" for c
    proof -
      obtain j where j: "j < length (matrix' ! 1)" and cj: "c = matrix' ! 1 ! j"
        using c unfolding in_set_conv_nth by blast
      have j': "j < length (matrix ! 1)"
        using j cells [OF one] by simp
      show ?thesis
        unfolding cj by (rule separator_cell(5) [OF nonneg [OF sepj [OF j']] sep [OF j']])
    qed
    moreover have "hd (matrix' ! 1) \<in> set (matrix' ! 1)" "last (matrix' ! 1) \<in> set (matrix' ! 1)"
      using ne' by simp_all
    ultimately show ?thesis
      unfolding t1 by blast
  next
    case False
    have t2: "?tgt ! i = matrix ! i"
      using False by simp
    show ?thesis
      using assms(3) [rule_format, OF i False] ne unfolding t2 by blast
  qed
  have parse: "parse_line (?line (matrix' ! i)) = ?tgt ! i" if i: "i < length matrix" for i
    using pad [OF i] fixed [OF i] edges [OF i] by (intro parse_rendered_line) blast+
  have rendered: "CHR ''\<newline>'' \<notin> set p"
    if row: "row \<in> set matrix'" and p: "p \<in> set row" for row p
  proof -
    obtain i where "i < length matrix'" and r: "row = matrix' ! i"
      using row unfolding in_set_conv_nth by blast
    then have i: "i < length matrix"
      using rows by simp
    obtain j where j': "j < length (matrix' ! i)" and pj: "p = matrix' ! i ! j"
      using p unfolding r in_set_conv_nth by blast
    have lj: "list_all2 padded (matrix' ! i) (?tgt ! i)"
      by (rule pad [OF i])
    have j: "j < length (?tgt ! i)"
      unfolding list_all2_lengthD [OF lj, symmetric] by (rule j')
    have pd: "padded (matrix' ! i ! j) (?tgt ! i ! j)"
      using lj j' by (rule list_all2_nthD)
    have "?tgt ! i ! j \<in> set (?tgt ! i)"
      using j by (rule nth_mem)
    then have nl: "CHR ''\<newline>'' \<notin> set (?tgt ! i ! j)"
      by (rule nonl [OF i])
    show ?thesis
      unfolding pj by (rule padded_no_bar [OF pd nl]) simp
  qed
  have lines2: "FieldsFunc t CHR ''\<newline>'' = map ?line matrix'"
    unfolding t using rendered by (intro FieldsFunc_build_table) blast
  have matrix2: "map parse_line (FieldsFunc t CHR ''\<newline>'') = ?tgt"
    unfolding lines2 using rows parse by (intro nth_equalityI) simp_all
  have c2: "map ?isC (?tgt ! 1) = ?centered"
  proof (intro nth_equalityI)
    show "length (map ?isC (?tgt ! 1)) = length ?centered"
      using one cells [OF one] by simp
    fix j
    assume "j < length (map ?isC (?tgt ! 1))"
    then have j: "j < length (matrix ! 1)"
      using one cells [OF one] by simp
    show "map ?isC (?tgt ! 1) ! j = ?centered ! j"
      using separator_cell(6) [OF nonneg [OF sepj [OF j]] sep [OF j]] j one cells [OF one]
      by simp
  qed
  have z: "?tgt ! 0 = matrix ! 0"
    by simp
  have l2: "lengths_rows ?init 0 ?tgt = Inr lengths"
    using lengths_rows_update [of 0 1 ?init matrix "matrix' ! 1"] ls by simp
  have f2: "format_rows ?centered lengths 0 ?tgt = Inr matrix'"
    using format_rows_update [of 0 1 matrix "matrix' ! 1" ?centered lengths] one cells [OF one] fr
    by simp
  have nl3: "\<not> length (FieldsFunc t CHR ''\<newline>'') < 3"
    unfolding lines2 using n rows by simp
  have "reflow t
          = (case lengths_rows (replicate (length (?tgt ! 0)) 0) 0 ?tgt of
               Inl e \<Rightarrow> Inl e
             | Inr lengths \<Rightarrow>
                 (case format_rows (map ?isC (?tgt ! 1)) lengths 0 ?tgt of
                    Inl e \<Rightarrow> Inl e
                  | Inr matrix' \<Rightarrow> Inr (Some (build_table matrix'))))"
    unfolding reflow_def Let_def matrix2 by (simp only: nl3 if_False)
  also have "\<dots> = Inr (Some (build_table matrix'))"
    unfolding c2 z l2 by (simp only: f2 sum.case)
  finally show ?thesis
    unfolding t .
qed

theorem reflow_again_witness:
  "reflow ''|  a | bb  |\<newline>|:--:|-----|\<newline>| xy | ccc |\<newline>''
     = Inr (Some ''|  a | bb  |\<newline>|:--:|-----|\<newline>| xy | ccc |\<newline>'')"
proof -
  let ?m = "[[''a'', ''bb''], ['':-:'', ''-''], [''xy'', ''ccc'']]"
  have r: "reflow ''|a|bb|\<newline>|:-:|-|\<newline>|xy|ccc|\<newline>''
             = Inr (Some ''|  a | bb  |\<newline>|:--:|-----|\<newline>| xy | ccc |\<newline>'')"
    by code_simp
  have m: "?m = map parse_line (FieldsFunc ''|a|bb|\<newline>|:-:|-|\<newline>|xy|ccc|\<newline>'' CHR ''\<newline>'')"
    by code_simp
  have e: "\<forall>i < length ?m. i \<noteq> 1 \<longrightarrow> ?m ! i \<noteq> [] \<longrightarrow> hd (?m ! i) \<noteq> [] \<and> last (?m ! i) \<noteq> []"
    by (auto simp: less_Suc_eq)
  show ?thesis
    by (rule reflow_again [OF r m e])
qed

end
